theory Spec2Isabelle
  imports Main
begin

section \<open>Strings\<close>

text \<open>
  A JavaScript string is its sequence of UTF-16 code units; a code unit is a natural
  number. \<open>S\<close> lifts an ASCII literal to such a string.
\<close>

type_synonym jstring = "nat list"

abbreviation S :: "string \<Rightarrow> jstring" where
  "S s \<equiv> map of_char s"

text \<open>
  The code units that \<open>String.prototype.trim\<close> strips and that \<open>\s\<close> matches in a
  regular expression without the \<open>u\<close> flag: WhiteSpace and LineTerminator of ECMA-262.
\<close>

definition isWhiteSpace :: "nat \<Rightarrow> bool" where
  "isWhiteSpace c \<longleftrightarrow>
     c = 0x09 \<or> c = 0x0A \<or> c = 0x0B \<or> c = 0x0C \<or> c = 0x0D \<or> c = 0x20 \<or> c = 0xA0
     \<or> c = 0x1680 \<or> (0x2000 \<le> c \<and> c \<le> 0x200A) \<or> c = 0x2028 \<or> c = 0x2029
     \<or> c = 0x202F \<or> c = 0x205F \<or> c = 0x3000 \<or> c = 0xFEFF"

definition trim :: "jstring \<Rightarrow> jstring" where
  "trim s = rev (dropWhile isWhiteSpace (rev (dropWhile isWhiteSpace s)))"

text \<open>\<open>s.split("\n")\<close>: never empty, the empty string gives one empty line.\<close>

fun split_nl :: "jstring \<Rightarrow> jstring list" where
  "split_nl [] = [[]]"
| "split_nl (c # cs) =
     (if c = 0x0A then [] # split_nl cs
      else (case split_nl cs of [] \<Rightarrow> [[c]] | l # ls \<Rightarrow> (c # l) # ls))"

text \<open>\<open>xs.join(sep)\<close>.\<close>

fun join :: "jstring \<Rightarrow> jstring list \<Rightarrow> jstring" where
  "join sep [] = []"
| "join sep [x] = x"
| "join sep (x # y # ys) = x @ sep @ join sep (y # ys)"

definition isDigit :: "nat \<Rightarrow> bool" where
  "isDigit c \<longleftrightarrow> 0x30 \<le> c \<and> c \<le> 0x39"

definition digitsValue :: "jstring \<Rightarrow> nat" where
  "digitsValue ds = foldl (\<lambda>n c. 10 * n + (c - 0x30)) 0 ds"

text \<open>\<open>String(n)\<close> for a natural number (the keys of an array are its indices).\<close>

fun decimal :: "nat \<Rightarrow> nat \<Rightarrow> jstring" where
  "decimal 0 n = []"
| "decimal (Suc fuel) n =
     (if n < 10 then [0x30 + n] else decimal fuel (n div 10) @ [0x30 + n mod 10])"

definition showNat :: "nat \<Rightarrow> jstring" where
  "showNat n = decimal (Suc n) n"

section \<open>JavaScript values and objects\<close>

text \<open>
  The values the merge functions meet: what \<open>JSON.parse\<close> and the YAML reader build, and
  what a property read can find on \<open>Object.prototype\<close> (a built-in function, or
  \<open>Object.prototype\<close> itself through the \<open>__proto__\<close> getter). A number is kept as its
  literal: its rounding to binary64 is the host's and no function here looks at it.
  An object is the list of its own enumerable properties in the order \<open>Object.keys\<close>
  gives them; its prototype is \<open>Object.prototype\<close>.
\<close>

datatype jv =
    JUndefined
  | JNull
  | JBool bool
  | JNum jstring
  | JStr jstring
  | JArr "jv list"
  | JObj "(jstring \<times> jv) list"
  | JFun jstring
  | JObjectPrototype

text \<open>\<open>typeof x === "object" && x !== null && !Array.isArray(x)\<close>.\<close>

fun isPlainObject :: "jv \<Rightarrow> bool" where
  "isPlainObject (JObj ps) = True"
| "isPlainObject JObjectPrototype = True"
| "isPlainObject v = False"

text \<open>\<open>typeof x === "object" && x !== null\<close>.\<close>

fun isObjectLike :: "jv \<Rightarrow> bool" where
  "isObjectLike (JObj ps) = True"
| "isObjectLike (JArr xs) = True"
| "isObjectLike JObjectPrototype = True"
| "isObjectLike v = False"

text \<open>The properties every ordinary object inherits from \<open>Object.prototype\<close>.\<close>

definition Object_prototype_names :: "jstring list" where
  "Object_prototype_names =
     [S ''constructor'', S ''__defineGetter__'', S ''__defineSetter__'',
      S ''hasOwnProperty'', S ''__lookupGetter__'', S ''__lookupSetter__'',
      S ''isPrototypeOf'', S ''propertyIsEnumerable'', S ''toString'', S ''valueOf'',
      S ''__proto__'', S ''toLocaleString'']"

text \<open>The own enumerable properties, in \<open>Object.keys\<close> order.\<close>

fun ownProps :: "jv \<Rightarrow> (jstring \<times> jv) list" where
  "ownProps (JObj ps) = ps"
| "ownProps (JArr xs) = zip (map showNat [0..<length xs]) xs"
| "ownProps v = []"

definition Object_keys :: "jv \<Rightarrow> jstring list" where
  "Object_keys v = map fst (ownProps v)"

text \<open>\<open>key in obj\<close>, for a plain object: own or inherited.\<close>

definition js_in :: "jstring \<Rightarrow> jv \<Rightarrow> bool" where
  "js_in key obj \<longleftrightarrow> key \<in> set (Object_keys obj) \<or> key \<in> set Object_prototype_names"

text \<open>
  \<open>obj[key]\<close>: the own property, else what \<open>Object.prototype\<close> gives. The \<open>__proto__\<close>
  getter returns the prototype: \<open>Object.prototype\<close> for a plain object, \<open>null\<close> for
  \<open>Object.prototype\<close> itself. The merges read an array only at its own indices.
\<close>

definition js_get :: "jv \<Rightarrow> jstring \<Rightarrow> jv" where
  "js_get obj key =
     (case map_of (ownProps obj) key of
        Some v \<Rightarrow> v
      | None \<Rightarrow>
          (if \<not> isPlainObject obj then JUndefined
           else if key = S ''__proto__'' then (if obj = JObjectPrototype then JNull else JObjectPrototype)
           else if key \<in> set Object_prototype_names then JFun key
           else JUndefined))"

text \<open>
  An array index: the canonical decimal form of an integer below \<open>2^32 - 1\<close>. Own
  properties with such keys come first in \<open>Object.keys\<close>, in ascending numeric order;
  the other keys follow in the order they were created.
\<close>

definition isArrayIndex :: "jstring \<Rightarrow> bool" where
  "isArrayIndex k \<longleftrightarrow>
     k \<noteq> [] \<and> list_all isDigit k \<and> (length k = 1 \<or> hd k \<noteq> 0x30) \<and> digitsValue k < 4294967295"

definition keyBefore :: "jstring \<Rightarrow> jstring \<Rightarrow> bool" where
  "keyBefore new old \<longleftrightarrow> isArrayIndex old \<and> digitsValue old < digitsValue new"

definition defineNew :: "(jstring \<times> jv) list \<Rightarrow> jstring \<Rightarrow> jv \<Rightarrow> (jstring \<times> jv) list" where
  "defineNew ps key v =
     (if isArrayIndex key
      then takeWhile (\<lambda>p. keyBefore key (fst p)) ps @ (key, v) # dropWhile (\<lambda>p. keyBefore key (fst p)) ps
      else ps @ [(key, v)])"

text \<open>\<open>CreateDataProperty\<close>: what \<open>JSON.parse\<close> and the spread \<open>{ ...obj }\<close> do per key.\<close>

definition createDataProperty :: "(jstring \<times> jv) list \<Rightarrow> jstring \<Rightarrow> jv \<Rightarrow> (jstring \<times> jv) list" where
  "createDataProperty ps key v =
     (if key \<in> fst ` set ps then map (\<lambda>p. if fst p = key then (key, v) else p) ps
      else defineNew ps key v)"

text \<open>
  The assignment \<open>obj[key] = v\<close> on an object the merge built itself. An own property is
  overwritten in place. Otherwise the key \<open>__proto__\<close> finds the setter of
  \<open>Object.prototype\<close>, which replaces the prototype (or does nothing, for a primitive) and
  creates no own property; every other key becomes a new own property. The prototype is
  not recorded: no later step of a merge reads through it.
\<close>

definition js_set :: "(jstring \<times> jv) list \<Rightarrow> jstring \<Rightarrow> jv \<Rightarrow> (jstring \<times> jv) list" where
  "js_set ps key v =
     (if key \<in> fst ` set ps then createDataProperty ps key v
      else if key = S ''__proto__'' then ps
      else defineNew ps key v)"

text \<open>The spread \<open>{ ...obj }\<close>: a fresh object with the own enumerable properties.\<close>

definition spread :: "jv \<Rightarrow> (jstring \<times> jv) list" where
  "spread obj = foldl (\<lambda>ps p. createDataProperty ps (fst p) (snd p)) [] (ownProps obj)"

text \<open>The template \<open>path ? `${path}.${key}` : key\<close>.\<close>

definition fullPathOf :: "jstring \<Rightarrow> jstring \<Rightarrow> jstring" where
  "fullPathOf path key = (if path \<noteq> [] then path @ S ''.'' @ key else key)"

lemma size_map_of:
  "map_of ps k = Some v \<Longrightarrow> size v < Suc (size_list (size_prod (\<lambda>x. 0) size) ps)"
  by (induction ps) (auto split: if_splits)

lemma size_zip_snd:
  "map_of (zip ks xs) k = Some v \<Longrightarrow> size v < Suc (size_list size xs)"
proof (induction xs arbitrary: ks)
  case Nil
  then show ?case by simp
next
  case (Cons x xs)
  show ?case
  proof (cases ks)
    case Nil
    with Cons.prems show ?thesis by simp
  next
    case (Cons a list)
    show ?thesis
    proof (cases "k = a")
      case True
      with Cons.prems \<open>ks = a # list\<close> show ?thesis by simp
    next
      case False
      with Cons.prems \<open>ks = a # list\<close> have "map_of (zip list xs) k = Some v" by simp
      from Cons.IH [OF this] show ?thesis by simp
    qed
  qed
qed

lemma size_js_get:
  assumes "isPlainObject (js_get obj key)"
  shows "size (js_get obj key) < size obj"
proof (cases "map_of (ownProps obj) key")
  case None
  then have "js_get obj key =
      (if \<not> isPlainObject obj then JUndefined
       else if key = S ''__proto__'' then (if obj = JObjectPrototype then JNull else JObjectPrototype)
       else if key \<in> set Object_prototype_names then JFun key
       else JUndefined)"
    by (simp only: js_get_def option.case)
  with assms show ?thesis
    by (cases obj) (simp_all split: if_splits)
next
  case (Some v)
  then have "js_get obj key = v" by (simp add: js_get_def)
  moreover have "size v < size obj"
  proof (cases obj)
    case (JArr xs)
    with Some have "map_of (zip (map showNat [0..<length xs]) xs) key = Some v" by simp
    from size_zip_snd [OF this] JArr show ?thesis by simp
  next
    case (JObj ps)
    with Some have "map_of ps key = Some v" by simp
    from size_map_of [OF this] JObj show ?thesis by simp
  qed (use Some in simp_all)
  ultimately show ?thesis by simp
qed

section \<open>The tree merge of the YAML path\<close>

text \<open>
  \<open>deepMergePreserveExisting\<close>. The arrays \<open>preserved\<close> and \<open>added\<close> are shared by all
  recursive calls and appended to in place: they are threaded through as a pair and
  returned with the result. The loop over \<open>Object.keys(generated)\<close> is the second
  function, which carries the keys still to visit and the \<open>result\<close> object so far.
\<close>

function deepMergePreserveExisting ::
    "jv \<Rightarrow> jv \<Rightarrow> jstring \<Rightarrow> jstring list \<Rightarrow> jstring list \<Rightarrow> (jstring \<times> jv) list \<times> jstring list \<times> jstring list"
  and dmpe_loop ::
    "jv \<Rightarrow> jv \<Rightarrow> jstring \<Rightarrow> jstring list \<Rightarrow> (jstring \<times> jv) list \<Rightarrow> jstring list \<Rightarrow> jstring list
       \<Rightarrow> (jstring \<times> jv) list \<times> jstring list \<times> jstring list"
where
  "deepMergePreserveExisting existing generated path preserved added =
     (case dmpe_loop existing generated path (Object_keys generated) (spread existing) preserved added of
        (result, preserved', added') \<Rightarrow>
          (result,
           preserved' @ map (fullPathOf path) (filter (\<lambda>key. \<not> js_in key generated) (Object_keys existing)),
           added'))"
| "dmpe_loop existing generated path [] result preserved added = (result, preserved, added)"
| "dmpe_loop existing generated path (key # keys) result preserved added =
     (if \<not> js_in key existing then
        dmpe_loop existing generated path keys
          (js_set result key (js_get generated key)) preserved (added @ [fullPathOf path key])
      else if isPlainObject (js_get existing key) \<and> isPlainObject (js_get generated key) then
        (case deepMergePreserveExisting (js_get existing key) (js_get generated key)
                (fullPathOf path key) preserved added of
           (sub, preserved', added') \<Rightarrow>
             dmpe_loop existing generated path keys (js_set result key (JObj sub)) preserved' added')
      else
        dmpe_loop existing generated path keys
          (js_set result key (js_get existing key)) (preserved @ [fullPathOf path key]) added)"
  by pat_completeness auto
termination
  by (relation "inv_image (less_than <*lex*> less_than) (\<lambda>x. case x of
          Inl (e, g, p, pr, ad) \<Rightarrow> (size g, Suc (length (Object_keys g)))
        | Inr (e, g, p, ks, r, pr, ad) \<Rightarrow> (size g, length ks))")
     (auto dest: size_js_get)

section \<open>The tree merge of the JSON path\<close>

text \<open>The second loop of \<open>deepMergeJson\<close>: the keys of \<open>generated\<close> that \<open>existing\<close> lacks.\<close>

fun dmj_new_keys ::
    "jv \<Rightarrow> jv \<Rightarrow> jstring \<Rightarrow> jstring list \<Rightarrow> (jstring \<times> jv) list \<Rightarrow> jstring list
       \<Rightarrow> (jstring \<times> jv) list \<times> jstring list" where
  "dmj_new_keys existing generated path [] result added = (result, added)"
| "dmj_new_keys existing generated path (key # keys) result added =
     (if \<not> js_in key existing then
        dmj_new_keys existing generated path keys
          (js_set result key (js_get generated key)) (added @ [fullPathOf path key])
      else dmj_new_keys existing generated path keys result added)"

text \<open>
  \<open>deepMergeJson\<close>, with \<open>preserved\<close> and \<open>added\<close> threaded through as above; the second
  function is the loop over \<open>Object.keys(existing)\<close>.
\<close>

function deepMergeJson ::
    "jv \<Rightarrow> jv \<Rightarrow> jstring \<Rightarrow> jstring list \<Rightarrow> jstring list \<Rightarrow> (jstring \<times> jv) list \<times> jstring list \<times> jstring list"
  and dmj_loop ::
    "jv \<Rightarrow> jv \<Rightarrow> jstring \<Rightarrow> jstring list \<Rightarrow> (jstring \<times> jv) list \<Rightarrow> jstring list \<Rightarrow> jstring list
       \<Rightarrow> (jstring \<times> jv) list \<times> jstring list \<times> jstring list"
where
  "deepMergeJson existing generated path preserved added =
     (case dmj_loop existing generated path (Object_keys existing) [] preserved added of
        (result, preserved', added') \<Rightarrow>
          (case dmj_new_keys existing generated path (Object_keys generated) result added' of
             (result', added'') \<Rightarrow> (result', preserved', added'')))"
| "dmj_loop existing generated path [] result preserved added = (result, preserved, added)"
| "dmj_loop existing generated path (key # keys) result preserved added =
     (if \<not> js_in key generated then
        dmj_loop existing generated path keys
          (js_set result key (js_get existing key)) (preserved @ [fullPathOf path key]) added
      else if isPlainObject (js_get existing key) \<and> isPlainObject (js_get generated key) then
        (case deepMergeJson (js_get existing key) (js_get generated key)
                (fullPathOf path key) preserved added of
           (sub, preserved', added') \<Rightarrow>
             dmj_loop existing generated path keys (js_set result key (JObj sub)) preserved' added')
      else
        dmj_loop existing generated path keys
          (js_set result key (js_get existing key)) (preserved @ [fullPathOf path key]) added)"
  by pat_completeness auto
termination
  by (relation "inv_image (less_than <*lex*> less_than) (\<lambda>x. case x of
          Inl (e, g, p, pr, ad) \<Rightarrow> (size e, Suc (length (Object_keys e)))
        | Inr (e, g, p, ks, r, pr, ad) \<Rightarrow> (size e, length ks))")
     (auto dest: size_js_get)

section \<open>collectKeys\<close>

function collectKeys :: "jv \<Rightarrow> jstring \<Rightarrow> jstring list \<Rightarrow> jstring list"
  and collectKeys_loop :: "jv \<Rightarrow> jstring \<Rightarrow> jstring list \<Rightarrow> jstring list \<Rightarrow> jstring list"
where
  "collectKeys obj path keys =
     (if \<not> isObjectLike obj then keys
      else collectKeys_loop obj path (Object_keys obj) keys)"
| "collectKeys_loop record path [] keys = keys"
| "collectKeys_loop record path (key # rest) keys =
     (if isPlainObject (js_get record key) then
        collectKeys_loop record path rest
          (collectKeys (js_get record key) (fullPathOf path key) (keys @ [fullPathOf path key]))
      else collectKeys_loop record path rest (keys @ [fullPathOf path key]))"
  by pat_completeness auto
termination
  by (relation "inv_image (less_than <*lex*> less_than) (\<lambda>x. case x of
          Inl (obj, p, ks) \<Rightarrow> (size obj, Suc (length (Object_keys obj)))
        | Inr (obj, p, todo, ks) \<Rightarrow> (size obj, length todo))")
     (auto dest: size_js_get)

section \<open>JSON.parse\<close>

text \<open>
  The JSON grammar of ECMA-404, as \<open>JSON.parse\<close> reads it. \<open>None\<close> is the SyntaxError.
  The members of an object are defined one by one with \<open>CreateDataProperty\<close>, so a
  repeated key keeps its first place and its last value, and \<open>__proto__\<close> is a key like
  any other.
\<close>

definition isJsonWs :: "nat \<Rightarrow> bool" where
  "isJsonWs c \<longleftrightarrow> c = 0x20 \<or> c = 0x09 \<or> c = 0x0A \<or> c = 0x0D"

definition skipWs :: "jstring \<Rightarrow> jstring" where
  "skipWs s = dropWhile isJsonWs s"

definition hexValue :: "nat \<Rightarrow> nat option" where
  "hexValue c =
     (if 0x30 \<le> c \<and> c \<le> 0x39 then Some (c - 0x30)
      else if 0x41 \<le> c \<and> c \<le> 0x46 then Some (c - 0x41 + 10)
      else if 0x61 \<le> c \<and> c \<le> 0x66 then Some (c - 0x61 + 10)
      else None)"

text \<open>The single-character escapes: \<open>\" \\ \/ \b \f \n \r \t\<close>.\<close>

definition unescape :: "nat \<Rightarrow> nat option" where
  "unescape e =
     (if e = 0x22 then Some 0x22 else if e = 0x5C then Some 0x5C else if e = 0x2F then Some 0x2F
      else if e = 0x62 then Some 0x08 else if e = 0x66 then Some 0x0C
      else if e = 0x6E then Some 0x0A else if e = 0x72 then Some 0x0D
      else if e = 0x74 then Some 0x09 else None)"

definition consChar :: "nat \<Rightarrow> (jstring \<times> jstring) option \<Rightarrow> (jstring \<times> jstring) option" where
  "consChar c r = (case r of None \<Rightarrow> None | Some (str, rest) \<Rightarrow> Some (c # str, rest))"

text \<open>The characters of a string after its opening quote: the string and what follows it.\<close>

fun parseStringBody :: "jstring \<Rightarrow> (jstring \<times> jstring) option" where
  "parseStringBody [] = None"
| "parseStringBody [c] = (if c = 0x22 then Some ([], []) else None)"
| "parseStringBody (c # e # es) =
     (if c = 0x22 then Some ([], e # es)
      else if c = 0x5C then
        (if e = 0x75 then
           (case es of
              h1 # h2 # h3 # h4 # rest \<Rightarrow>
                (case (hexValue h1, hexValue h2, hexValue h3, hexValue h4) of
                   (Some a, Some b, Some c', Some d) \<Rightarrow>
                     consChar (4096 * a + 256 * b + 16 * c' + d) (parseStringBody rest)
                 | _ \<Rightarrow> None)
            | _ \<Rightarrow> None)
         else (case unescape e of None \<Rightarrow> None | Some x \<Rightarrow> consChar x (parseStringBody es)))
      else if c < 0x20 then None
      else consChar c (parseStringBody (e # es)))"

text \<open>A number: its literal and what follows it.\<close>

definition parseDigits :: "jstring \<Rightarrow> (jstring \<times> jstring) option" where
  "parseDigits s = (if takeWhile isDigit s = [] then None else Some (takeWhile isDigit s, dropWhile isDigit s))"

definition parseInt :: "jstring \<Rightarrow> (jstring \<times> jstring) option" where
  "parseInt s =
     (case s of
        [] \<Rightarrow> None
      | d # ds \<Rightarrow> if d = 0x30 then Some ([d], ds) else parseDigits s)"

definition parseFrac :: "jstring \<Rightarrow> (jstring \<times> jstring) option" where
  "parseFrac s =
     (case s of
        [] \<Rightarrow> Some ([], s)
      | d # ds \<Rightarrow>
          if d = 0x2E then (case parseDigits ds of None \<Rightarrow> None | Some (fr, rest) \<Rightarrow> Some (d # fr, rest))
          else Some ([], s))"

definition parseExp :: "jstring \<Rightarrow> (jstring \<times> jstring) option" where
  "parseExp s =
     (case s of
        [] \<Rightarrow> Some ([], s)
      | e # es \<Rightarrow>
          if e = 0x65 \<or> e = 0x45 then
            (case es of
               [] \<Rightarrow> None
             | sg # ds \<Rightarrow>
                 if sg = 0x2B \<or> sg = 0x2D then
                   (case parseDigits ds of None \<Rightarrow> None | Some (ex, rest) \<Rightarrow> Some (e # sg # ex, rest))
                 else (case parseDigits es of None \<Rightarrow> None | Some (ex, rest) \<Rightarrow> Some (e # ex, rest)))
          else Some ([], s))"

definition parseNumber :: "jstring \<Rightarrow> (jstring \<times> jstring) option" where
  "parseNumber s =
     (let sign = (if s \<noteq> [] \<and> hd s = 0x2D then [0x2D] else []);
          s1 = (if s \<noteq> [] \<and> hd s = 0x2D then tl s else s)
      in case parseInt s1 of
           None \<Rightarrow> None
         | Some (ip, s2) \<Rightarrow>
             (case parseFrac s2 of
                None \<Rightarrow> None
              | Some (fp, s3) \<Rightarrow>
                  (case parseExp s3 of
                     None \<Rightarrow> None
                   | Some (ep, s4) \<Rightarrow> Some (sign @ ip @ fp @ ep, s4))))"

definition startsWith :: "jstring \<Rightarrow> jstring \<Rightarrow> bool" where
  "startsWith s p \<longleftrightarrow> take (length p) s = p"

definition endsWith :: "jstring \<Rightarrow> jstring \<Rightarrow> bool" where
  "endsWith s p \<longleftrightarrow> length p \<le> length s \<and> drop (length s - length p) s = p"

text \<open>
  A value, the elements of an array after \<open>[\<close>, the members of an object after \<open>{\<close>.
  The first argument bounds the number of nested calls; each call is made after at least
  one character has been read, so the length of the text is enough.
\<close>

fun parseValue :: "nat \<Rightarrow> jstring \<Rightarrow> (jv \<times> jstring) option"
  and parseElements :: "nat \<Rightarrow> jstring \<Rightarrow> jv list \<Rightarrow> (jv list \<times> jstring) option"
  and parseMembers :: "nat \<Rightarrow> jstring \<Rightarrow> (jstring \<times> jv) list \<Rightarrow> ((jstring \<times> jv) list \<times> jstring) option"
where
  "parseValue 0 s = None"
| "parseValue (Suc n) s =
     (case skipWs s of
        [] \<Rightarrow> None
      | c # cs \<Rightarrow>
          if c = 0x7B then
            (if skipWs cs \<noteq> [] \<and> hd (skipWs cs) = 0x7D then Some (JObj [], tl (skipWs cs))
             else (case parseMembers n cs [] of None \<Rightarrow> None | Some (ps, rest) \<Rightarrow> Some (JObj ps, rest)))
          else if c = 0x5B then
            (if skipWs cs \<noteq> [] \<and> hd (skipWs cs) = 0x5D then Some (JArr [], tl (skipWs cs))
             else (case parseElements n cs [] of None \<Rightarrow> None | Some (xs, rest) \<Rightarrow> Some (JArr xs, rest)))
          else if c = 0x22 then
            (case parseStringBody cs of None \<Rightarrow> None | Some (str, rest) \<Rightarrow> Some (JStr str, rest))
          else if startsWith (c # cs) (S ''true'') then Some (JBool True, drop 4 (c # cs))
          else if startsWith (c # cs) (S ''false'') then Some (JBool False, drop 5 (c # cs))
          else if startsWith (c # cs) (S ''null'') then Some (JNull, drop 4 (c # cs))
          else (case parseNumber (c # cs) of None \<Rightarrow> None | Some (lit, rest) \<Rightarrow> Some (JNum lit, rest)))"
| "parseElements 0 s acc = None"
| "parseElements (Suc n) s acc =
     (case parseValue n s of
        None \<Rightarrow> None
      | Some (v, rest) \<Rightarrow>
          (case skipWs rest of
             [] \<Rightarrow> None
           | c # cs \<Rightarrow>
               if c = 0x2C then parseElements n cs (acc @ [v])
               else if c = 0x5D then Some (acc @ [v], cs)
               else None))"
| "parseMembers 0 s acc = None"
| "parseMembers (Suc n) s acc =
     (case skipWs s of
        [] \<Rightarrow> None
      | q # qs \<Rightarrow>
          if q \<noteq> 0x22 then None
          else
            (case parseStringBody qs of
               None \<Rightarrow> None
             | Some (key, r1) \<Rightarrow>
                 (case skipWs r1 of
                    [] \<Rightarrow> None
                  | colon # r2 \<Rightarrow>
                      if colon \<noteq> 0x3A then None
                      else
                        (case parseValue n r2 of
                           None \<Rightarrow> None
                         | Some (v, r3) \<Rightarrow>
                             (case skipWs r3 of
                                [] \<Rightarrow> None
                              | c # cs \<Rightarrow>
                                  if c = 0x2C then parseMembers n cs (createDataProperty acc key v)
                                  else if c = 0x7D then Some (createDataProperty acc key v, cs)
                                  else None)))))"

definition JSON_parse :: "jstring \<Rightarrow> jv option" where
  "JSON_parse text =
     (case parseValue (Suc (length text)) text of
        None \<Rightarrow> None
      | Some (v, rest) \<Rightarrow> if skipWs rest = [] then Some v else None)"

section \<open>mergeJson\<close>

record MergeResult =
  content :: jstring
  preserved :: "jstring list"
  added :: "jstring list"

definition isBlank :: "jstring \<Rightarrow> bool" where
  "isBlank s \<longleftrightarrow> s = [] \<or> trim s = []"

text \<open>
  \<open>mergeJson\<close>. The serialiser \<open>JSON.stringify(x, null, 2)\<close> is the host's (it prints
  binary64 numbers) and is a parameter. Each \<open>try\<close> block throws only in \<open>JSON.parse\<close>,
  before anything is pushed, so its \<open>catch\<close> sees \<open>preserved\<close> and \<open>added\<close> empty.
\<close>

definition mergeJson :: "(jv \<Rightarrow> jstring) \<Rightarrow> jstring \<Rightarrow> jstring \<Rightarrow> MergeResult" where
  "mergeJson stringify existing generated =
     (if isBlank existing then
        (case JSON_parse generated of
           Some genObj \<Rightarrow>
             \<lparr>content = stringify genObj @ S ''\<newline>'', preserved = [], added = collectKeys genObj [] []\<rparr>
         | None \<Rightarrow> \<lparr>content = generated, preserved = [], added = []\<rparr>)
      else if isBlank generated then
        (case JSON_parse existing of
           Some existObj \<Rightarrow>
             \<lparr>content = stringify existObj @ S ''\<newline>'', preserved = collectKeys existObj [] [], added = []\<rparr>
         | None \<Rightarrow> \<lparr>content = existing, preserved = [], added = []\<rparr>)
      else
        (case JSON_parse existing of
           None \<Rightarrow> \<lparr>content = existing, preserved = [S ''(parse error - kept existing)''], added = []\<rparr>
         | Some existingObj \<Rightarrow>
             (case JSON_parse generated of
                None \<Rightarrow> \<lparr>content = existing, preserved = [S ''(parse error - kept existing)''], added = []\<rparr>
              | Some generatedObj \<Rightarrow>
                  if \<not> isPlainObject existingObj then
                    \<lparr>content = stringify existingObj @ S ''\<newline>'', preserved = [S ''(root)''], added = []\<rparr>
                  else if \<not> isPlainObject generatedObj then
                    \<lparr>content = stringify existingObj @ S ''\<newline>'',
                     preserved = collectKeys existingObj [] [], added = []\<rparr>
                  else
                    (case deepMergeJson existingObj generatedObj [] [] [] of
                       (merged, preserved', added') \<Rightarrow>
                         \<lparr>content = stringify (JObj merged) @ S ''\<newline>'',
                          preserved = preserved', added = added'\<rparr>))))"

section \<open>JSON.stringify\<close>

text \<open>
  \<open>JSON.stringify(x, null, 2)\<close> on the values above, used where a concrete text is shown.
  A number prints as its literal, which is what the host prints for an integer literal in
  canonical form. A property whose value is \<open>undefined\<close> or a function is left out; in an
  array such a value prints as \<open>null\<close>.
\<close>

definition hexDigit :: "nat \<Rightarrow> nat" where
  "hexDigit d = (if d < 10 then 0x30 + d else 0x61 + (d - 10))"

definition quoteChar :: "nat \<Rightarrow> jstring" where
  "quoteChar c =
     (if c = 0x22 then [0x5C, 0x22]
      else if c = 0x5C then [0x5C, 0x5C]
      else if c = 0x08 then [0x5C, 0x62]
      else if c = 0x0C then [0x5C, 0x66]
      else if c = 0x0A then [0x5C, 0x6E]
      else if c = 0x0D then [0x5C, 0x72]
      else if c = 0x09 then [0x5C, 0x74]
      else if c < 0x20 then [0x5C, 0x75, 0x30, 0x30, hexDigit (c div 16), hexDigit (c mod 16)]
      else [c])"

definition quoteJSONString :: "jstring \<Rightarrow> jstring" where
  "quoteJSONString s = [0x22] @ concat (map quoteChar s) @ [0x22]"

fun isUndefinedOrFunction :: "jv \<Rightarrow> bool" where
  "isUndefinedOrFunction JUndefined = True"
| "isUndefinedOrFunction (JFun f) = True"
| "isUndefinedOrFunction v = False"

fun stringifyValue :: "jstring \<Rightarrow> jv \<Rightarrow> jstring"
  and stringifyElements :: "jstring \<Rightarrow> jv list \<Rightarrow> jstring list"
  and stringifyMembers :: "jstring \<Rightarrow> (jstring \<times> jv) list \<Rightarrow> jstring list"
where
  "stringifyValue ind JNull = S ''null''"
| "stringifyValue ind (JBool b) = (if b then S ''true'' else S ''false'')"
| "stringifyValue ind (JNum lit) = lit"
| "stringifyValue ind (JStr s) = quoteJSONString s"
| "stringifyValue ind (JArr xs) =
     (if xs = [] then S ''[]''
      else S ''['' @ [0x0A] @ ind @ S ''  ''
           @ join (S '','' @ [0x0A] @ ind @ S ''  '') (stringifyElements (ind @ S ''  '') xs)
           @ [0x0A] @ ind @ S '']'')"
| "stringifyValue ind (JObj ps) =
     (if stringifyMembers (ind @ S ''  '') ps = [] then S ''{}''
      else S ''{'' @ [0x0A] @ ind @ S ''  ''
           @ join (S '','' @ [0x0A] @ ind @ S ''  '') (stringifyMembers (ind @ S ''  '') ps)
           @ [0x0A] @ ind @ S ''}'')"
| "stringifyValue ind JObjectPrototype = S ''{}''"
| "stringifyValue ind JUndefined = []"
| "stringifyValue ind (JFun f) = []"
| "stringifyElements ind [] = []"
| "stringifyElements ind (x # xs) =
     (if isUndefinedOrFunction x then S ''null'' else stringifyValue ind x) # stringifyElements ind xs"
| "stringifyMembers ind [] = []"
| "stringifyMembers ind (p # ps) =
     (if isUndefinedOrFunction (snd p) then stringifyMembers ind ps
      else (quoteJSONString (fst p) @ S '': '' @ stringifyValue ind (snd p)) # stringifyMembers ind ps)"

definition JSON_stringify :: "jv \<Rightarrow> jstring" where
  "JSON_stringify v = stringifyValue [] v"

section \<open>The section parser\<close>

definition isLineTerminator :: "nat \<Rightarrow> bool" where
  "isLineTerminator c \<longleftrightarrow> c = 0x0A \<or> c = 0x0D \<or> c = 0x2028 \<or> c = 0x2029"

definition nl :: jstring where
  "nl = [0x0A]"

text \<open>
  The header pattern \<open>/^(#{1,6})\s+(.+)$/\<close>, matched as the regular expression engine
  does: the greedy \<open>#{1,6}\<close> tries six marks first and then fewer, the greedy \<open>\s+\<close> tries
  the longest run of white space first and then shorter ones, and \<open>(.+)$\<close> has to take all
  of the rest, which must be non-empty and free of line terminators (there is no \<open>m\<close> or
  \<open>s\<close> flag). The result is the length of group 1 and the text of group 2.
\<close>

fun firstRest :: "nat list \<Rightarrow> jstring \<Rightarrow> jstring option" where
  "firstRest [] r = None"
| "firstRest (k # ks) r =
     (if drop k r \<noteq> [] \<and> list_all (\<lambda>c. \<not> isLineTerminator c) (drop k r) then Some (drop k r)
      else firstRest ks r)"

definition matchRest :: "jstring \<Rightarrow> jstring option" where
  "matchRest r = firstRest (rev [1..<Suc (length (takeWhile isWhiteSpace r))]) r"

definition matchHashes :: "nat \<Rightarrow> jstring \<Rightarrow> (nat \<times> jstring) option" where
  "matchHashes h line =
     (if h \<le> length line \<and> list_all (\<lambda>c. c = 0x23) (take h line)
      then (case matchRest (drop h line) of None \<Rightarrow> None | Some t \<Rightarrow> Some (h, t))
      else None)"

fun firstHashes :: "nat list \<Rightarrow> jstring \<Rightarrow> (nat \<times> jstring) option" where
  "firstHashes [] line = None"
| "firstHashes (h # hs) line =
     (case matchHashes h line of None \<Rightarrow> firstHashes hs line | Some m \<Rightarrow> Some m)"

definition headerRegex :: "jstring \<Rightarrow> (nat \<times> jstring) option" where
  "headerRegex line = firstHashes [6, 5, 4, 3, 2, 1] line"

text \<open>
  \<open>MarkdownSection\<close>. Its field \<open>content\<close> is named \<open>sectionContent\<close> here, apart from the
  field \<open>content\<close> of \<open>MergeResult\<close>.
\<close>

record MarkdownSection =
  header :: jstring
  level :: nat
  rawHeader :: jstring
  sectionContent :: jstring
  fullText :: jstring

text \<open>What the parser does when it closes \<open>currentSection\<close>, before pushing it.\<close>

definition finishSection :: "MarkdownSection \<Rightarrow> jstring list \<Rightarrow> MarkdownSection" where
  "finishSection cur contentLines =
     cur\<lparr>sectionContent := join nl contentLines,
         fullText := rawHeader cur @ (if join nl contentLines \<noteq> [] then nl @ join nl contentLines else [])\<rparr>"

definition pushCurrent :: "MarkdownSection list \<Rightarrow> MarkdownSection option \<Rightarrow> jstring list \<Rightarrow> MarkdownSection list" where
  "pushCurrent sections cur contentLines =
     (case cur of None \<Rightarrow> sections | Some c \<Rightarrow> sections @ [finishSection c contentLines])"

text \<open>The loop over the lines: \<open>sections\<close>, \<open>currentSection\<close> and \<open>contentLines\<close> are its state.\<close>

fun parseLines ::
    "jstring list \<Rightarrow> MarkdownSection list \<Rightarrow> MarkdownSection option \<Rightarrow> jstring list
       \<Rightarrow> MarkdownSection list \<times> MarkdownSection option \<times> jstring list" where
  "parseLines [] sections cur contentLines = (sections, cur, contentLines)"
| "parseLines (line # lines) sections cur contentLines =
     (case headerRegex line of
        Some (n, text) \<Rightarrow>
          parseLines lines (pushCurrent sections cur contentLines)
            (Some \<lparr>header = trim text, level = n, rawHeader = line, sectionContent = [], fullText = []\<rparr>)
            []
      | None \<Rightarrow> parseLines lines sections cur (contentLines @ [line]))"

text \<open>\<open>s.indexOf(p)\<close>; \<open>None\<close> is \<open>-1\<close>.\<close>

fun indexOf :: "jstring \<Rightarrow> jstring \<Rightarrow> nat option" where
  "indexOf [] p = (if p = [] then Some 0 else None)"
| "indexOf (c # cs) p =
     (if startsWith (c # cs) p then Some 0
      else (case indexOf cs p of None \<Rightarrow> None | Some i \<Rightarrow> Some (Suc i)))"

definition preambleSection :: "jstring \<Rightarrow> MarkdownSection" where
  "preambleSection text =
     \<lparr>header = S ''__preamble__'', level = 0, rawHeader = [], sectionContent = text, fullText = text\<rparr>"

definition parseMarkdownSections :: "jstring \<Rightarrow> MarkdownSection list" where
  "parseMarkdownSections text =
     (case parseLines (split_nl text) [] None [] of
        (sections0, cur, contentLines) \<Rightarrow>
          (let sections = pushCurrent sections0 cur contentLines in
           if sections = [] \<and> contentLines \<noteq> [] then [preambleSection (join nl contentLines)]
           else if sections \<noteq> [] then
             (case indexOf text (rawHeader (hd sections)) of
                None \<Rightarrow> sections
              | Some firstHeaderIndex \<Rightarrow>
                  if 0 < firstHeaderIndex \<and> trim (take firstHeaderIndex text) \<noteq> []
                  then preambleSection (trim (take firstHeaderIndex text)) # sections
                  else sections)
           else sections))"

section \<open>The section merge\<close>

text \<open>
  \<open>toLowerCase\<close>, one code unit at a time. It is exact for every code unit whose image
  holds a lower-case ASCII letter, a digit or white space: the letters A to Z, the Kelvin
  sign U+212A (to k) and U+0130 (to i followed by U+0307). Any other letter is left as it
  is; \<open>normalizeHeader\<close> deletes it and its lower-case form alike.
\<close>

definition toLowerCase :: "jstring \<Rightarrow> jstring" where
  "toLowerCase s =
     concat (map (\<lambda>c. if 0x41 \<le> c \<and> c \<le> 0x5A then [c + 0x20]
                       else if c = 0x212A then [0x6B]
                       else if c = 0x130 then [0x69, 0x307]
                       else [c]) s)"

text \<open>The characters that \<open>/[^a-z0-9\s]/g\<close> leaves in place.\<close>

definition keptByNormalize :: "nat \<Rightarrow> bool" where
  "keptByNormalize c \<longleftrightarrow> (0x61 \<le> c \<and> c \<le> 0x7A) \<or> isDigit c \<or> isWhiteSpace c"

definition normalizeHeader :: "jstring \<Rightarrow> jstring" where
  "normalizeHeader h = trim (filter keptByNormalize (toLowerCase h))"

definition headersMatch :: "jstring \<Rightarrow> jstring \<Rightarrow> bool" where
  "headersMatch header1 header2 \<longleftrightarrow> normalizeHeader header1 = normalizeHeader header2"

text \<open>The \<open>Map\<close> built from the existing sections: a later section replaces an earlier one.\<close>

definition existingByHeader :: "MarkdownSection list \<Rightarrow> (jstring \<rightharpoonup> MarkdownSection)" where
  "existingByHeader existingSections =
     foldl (\<lambda>m section. m(normalizeHeader (header section) \<mapsto> section)) Map.empty existingSections"

text \<open>
  The loop over the generated sections. Its state: \<open>mergedSections\<close>, \<open>preserved\<close>, \<open>added\<close>
  (the last two named \<open>preservedSoFar\<close> and \<open>addedSoFar\<close>, apart from the fields of the
  result) and the set \<open>usedExistingHeaders\<close>.
\<close>

fun mergeGenerated ::
    "(jstring \<rightharpoonup> MarkdownSection) \<Rightarrow> MarkdownSection list
       \<Rightarrow> jstring list \<times> jstring list \<times> jstring list \<times> jstring set
       \<Rightarrow> jstring list \<times> jstring list \<times> jstring list \<times> jstring set" where
  "mergeGenerated byHeader [] st = st"
| "mergeGenerated byHeader (genSection # rest) (mergedSections, preservedSoFar, addedSoFar, used) =
     (case byHeader (normalizeHeader (header genSection)) of
        Some existingSection \<Rightarrow>
          mergeGenerated byHeader rest
            (mergedSections @ [fullText existingSection],
             (if header existingSection \<noteq> S ''__preamble__'' then preservedSoFar @ [header existingSection]
              else preservedSoFar),
             addedSoFar,
             insert (normalizeHeader (header genSection)) used)
      | None \<Rightarrow>
          mergeGenerated byHeader rest
            (mergedSections @ [fullText genSection],
             preservedSoFar,
             (if header genSection \<noteq> S ''__preamble__'' then addedSoFar @ [header genSection] else addedSoFar),
             used))"

text \<open>The loop over the existing sections that appends the ones not used.\<close>

fun appendCustom ::
    "jstring set \<Rightarrow> MarkdownSection list \<Rightarrow> jstring list \<times> jstring list \<Rightarrow> jstring list \<times> jstring list" where
  "appendCustom used [] st = st"
| "appendCustom used (existSection # rest) (mergedSections, preservedSoFar) =
     (if normalizeHeader (header existSection) \<notin> used \<and> header existSection \<noteq> S ''__preamble__''
      then appendCustom used rest (mergedSections @ [fullText existSection], preservedSoFar @ [header existSection])
      else appendCustom used rest (mergedSections, preservedSoFar))"

text \<open>
  The two loops of \<open>mergeMarkdown\<close> on the parsed documents: \<open>mergedSections\<close>, \<open>preserved\<close>
  and \<open>added\<close> as they stand before the sections are joined.
\<close>

definition mergeSections ::
    "MarkdownSection list \<Rightarrow> MarkdownSection list \<Rightarrow> jstring list \<times> jstring list \<times> jstring list" where
  "mergeSections existingSections generatedSections =
     (case mergeGenerated (existingByHeader existingSections) generatedSections ([], [], [], {}) of
        (merged1, preserved1, added1, used) \<Rightarrow>
          (case appendCustom used existingSections (merged1, preserved1) of
             (merged2, preserved2) \<Rightarrow> (merged2, preserved2, added1)))"

text \<open>The headers a one-sided merge reports: all but the sentinel.\<close>

definition reportedHeaders :: "MarkdownSection list \<Rightarrow> jstring list" where
  "reportedHeaders sections = map header (filter (\<lambda>section. header section \<noteq> S ''__preamble__'') sections)"

definition mergeMarkdown :: "jstring \<Rightarrow> jstring \<Rightarrow> MergeResult" where
  "mergeMarkdown existing generated =
     (if isBlank existing then
        \<lparr>content = generated, preserved = [], added = reportedHeaders (parseMarkdownSections generated)\<rparr>
      else if isBlank generated then
        \<lparr>content = existing, preserved = reportedHeaders (parseMarkdownSections existing), added = []\<rparr>
      else
        (case mergeSections (parseMarkdownSections existing) (parseMarkdownSections generated) of
           (mergedSections, preserved', added') \<Rightarrow>
             \<lparr>content = trim (join (nl @ nl) mergedSections) @ nl,
              preserved = preserved', added = added'\<rparr>))"

section \<open>parseYamlValue\<close>

text \<open>
  \<open>isNaN(Number(value))\<close> for a string: \<open>Number\<close> trims the string and reads the empty
  string as 0, a StrNumericLiteral of ECMA-262 as its value and anything else as NaN.
\<close>

definition isDecimalDigits :: "jstring \<Rightarrow> bool" where
  "isDecimalDigits s \<longleftrightarrow> s \<noteq> [] \<and> list_all isDigit s"

definition isExponentPartOpt :: "jstring \<Rightarrow> bool" where
  "isExponentPartOpt s \<longleftrightarrow>
     (case s of
        [] \<Rightarrow> True
      | e # r \<Rightarrow>
          (e = 0x65 \<or> e = 0x45) \<and>
          (case r of
             [] \<Rightarrow> False
           | sg # ds \<Rightarrow> if sg = 0x2B \<or> sg = 0x2D then isDecimalDigits ds else isDecimalDigits r))"

definition isStrUnsignedDecimalLiteral :: "jstring \<Rightarrow> bool" where
  "isStrUnsignedDecimalLiteral s \<longleftrightarrow>
     s = S ''Infinity'' \<or>
     (case dropWhile isDigit s of
        [] \<Rightarrow> s \<noteq> []
      | d # r \<Rightarrow>
          if d = 0x2E
          then (takeWhile isDigit s \<noteq> [] \<or> takeWhile isDigit r \<noteq> []) \<and> isExponentPartOpt (dropWhile isDigit r)
          else takeWhile isDigit s \<noteq> [] \<and> isExponentPartOpt (d # r))"

definition isNonDecimalIntegerLiteral :: "jstring \<Rightarrow> bool" where
  "isNonDecimalIntegerLiteral s \<longleftrightarrow>
     (case s of
        z # x # ds \<Rightarrow>
          z = 0x30 \<and> ds \<noteq> [] \<and>
          (if x = 0x78 \<or> x = 0x58 then list_all (\<lambda>c. hexValue c \<noteq> None) ds
           else if x = 0x6F \<or> x = 0x4F then list_all (\<lambda>c. 0x30 \<le> c \<and> c \<le> 0x37) ds
           else if x = 0x62 \<or> x = 0x42 then list_all (\<lambda>c. c = 0x30 \<or> c = 0x31) ds
           else False)
      | _ \<Rightarrow> False)"

definition isStrNumericLiteral :: "jstring \<Rightarrow> bool" where
  "isStrNumericLiteral s \<longleftrightarrow>
     isStrUnsignedDecimalLiteral s
     \<or> (s \<noteq> [] \<and> (hd s = 0x2B \<or> hd s = 0x2D) \<and> isStrUnsignedDecimalLiteral (tl s))
     \<or> isNonDecimalIntegerLiteral s"

definition Number_isNaN :: "jstring \<Rightarrow> bool" where
  "Number_isNaN value \<longleftrightarrow> \<not> (trim value = [] \<or> isStrNumericLiteral (trim value))"

text \<open>\<open>value.slice(1, -1)\<close>.\<close>

definition slice_1_m1 :: "jstring \<Rightarrow> jstring" where
  "slice_1_m1 value = take (length value - 1 - 1) (drop 1 value)"

text \<open>
  \<open>parseYamlValue\<close>. The number it returns is \<open>Number(value)\<close>, kept as the text it was
  read from.
\<close>

definition isQuoted :: "jstring \<Rightarrow> bool" where
  "isQuoted value \<longleftrightarrow>
     (startsWith value [0x22] \<and> endsWith value [0x22]) \<or> (startsWith value [0x27] \<and> endsWith value [0x27])"

definition parseYamlValue :: "jstring \<Rightarrow> jv" where
  "parseYamlValue value =
     (if isQuoted value
      then JStr (slice_1_m1 value)
      else if value = S ''true'' \<or> value = S ''True'' \<or> value = S ''TRUE'' then JBool True
      else if value = S ''false'' \<or> value = S ''False'' \<or> value = S ''FALSE'' then JBool False
      else if value = S ''null'' \<or> value = S ''~'' \<or> value = [] then JNull
      else if \<not> Number_isNaN value \<and> value \<noteq> [] then JNum value
      else JStr value)"

text \<open>The texts that \<open>parseYamlValue\<close> reads as a boolean or as null.\<close>

definition yamlKeywords :: "jstring list" where
  "yamlKeywords =
     [S ''true'', S ''True'', S ''TRUE'', S ''false'', S ''False'', S ''FALSE'', S ''null'', S ''~'', []]"

section \<open>The section merge, in closed form\<close>

definition sectionKey :: "MarkdownSection \<Rightarrow> jstring" where
  "sectionKey section = normalizeHeader (header section)"

text \<open>The existing section a key finds: the last one with that key.\<close>

definition matchingExisting :: "MarkdownSection list \<Rightarrow> jstring \<Rightarrow> MarkdownSection option" where
  "matchingExisting existingSections k = find (\<lambda>e. sectionKey e = k) (rev existingSections)"

text \<open>The text a generated section contributes: that of its matching existing section, or its own.\<close>

definition contributedText :: "MarkdownSection list \<Rightarrow> MarkdownSection \<Rightarrow> jstring" where
  "contributedText existingSections g =
     (case matchingExisting existingSections (sectionKey g) of
        Some e \<Rightarrow> fullText e
      | None \<Rightarrow> fullText g)"

text \<open>The existing sections whose key no generated section has.\<close>

definition unmatchedExisting :: "MarkdownSection list \<Rightarrow> MarkdownSection list \<Rightarrow> MarkdownSection list" where
  "unmatchedExisting existingSections generatedSections =
     filter (\<lambda>e. sectionKey e \<notin> set (map sectionKey generatedSections)) existingSections"

definition preservedOfGenerated :: "MarkdownSection list \<Rightarrow> MarkdownSection list \<Rightarrow> jstring list" where
  "preservedOfGenerated existingSections generatedSections =
     concat (map (\<lambda>g. case matchingExisting existingSections (sectionKey g) of
                         Some e \<Rightarrow> if header e \<noteq> S ''__preamble__'' then [header e] else []
                       | None \<Rightarrow> []) generatedSections)"

definition addedOfGenerated :: "MarkdownSection list \<Rightarrow> MarkdownSection list \<Rightarrow> jstring list" where
  "addedOfGenerated existingSections generatedSections =
     concat (map (\<lambda>g. case matchingExisting existingSections (sectionKey g) of
                         Some e \<Rightarrow> []
                       | None \<Rightarrow> if header g \<noteq> S ''__preamble__'' then [header g] else []) generatedSections)"

section \<open>The spans of a sectioned document\<close>

definition isHeaderLine :: "jstring \<Rightarrow> bool" where
  "isHeaderLine line \<longleftrightarrow> headerRegex line \<noteq> None"

text \<open>
  The spans of a document, as lists of lines: the lines before the first header line, and
  for each header line the span it starts, which runs up to the next header line.
\<close>

fun sectionSpans :: "jstring list \<Rightarrow> jstring list \<times> jstring list list" where
  "sectionSpans [] = ([], [])"
| "sectionSpans (line # lines) =
     (case sectionSpans lines of
        (pre, spans) \<Rightarrow>
          if isHeaderLine line then ([], (line # pre) # spans) else (line # pre, spans))"

text \<open>The section the parser makes of a span: it opens it at the header line and closes it.\<close>

definition openSection :: "jstring \<Rightarrow> MarkdownSection" where
  "openSection line =
     (case headerRegex line of
        Some (n, text) \<Rightarrow>
          \<lparr>header = trim text, level = n, rawHeader = line, sectionContent = [], fullText = []\<rparr>
      | None \<Rightarrow> \<lparr>header = [], level = 0, rawHeader = line, sectionContent = [], fullText = []\<rparr>)"

definition sectionOfSpan :: "jstring list \<Rightarrow> MarkdownSection" where
  "sectionOfSpan span = finishSection (openSection (hd span)) (tl span)"

text \<open>The raw header line and the body, with a newline between them when the body is not empty.\<close>

definition reassemble :: "MarkdownSection \<Rightarrow> jstring" where
  "reassemble section =
     rawHeader section @ (if sectionContent section \<noteq> [] then nl @ sectionContent section else [])"

text \<open>
  \<open>content.indexOf(sections[0].rawHeader)\<close> is the position of the first header line, so
  that \<open>content.substring(0, firstHeaderIndex)\<close> is the text before that line.
\<close>

definition firstHeaderFoundAtItsLine :: "jstring \<Rightarrow> bool" where
  "firstHeaderFoundAtItsLine X \<longleftrightarrow>
     (case sectionSpans (split_nl X) of
        (pre, spans) \<Rightarrow>
          pre = [] \<or> spans = [] \<or> indexOf X (hd (hd spans)) = Some (length (join nl pre) + 1))"

text \<open>
  No line before the first header line contains the text of that line. (A document that
  starts with its first header line, or has none, is such a document.)
\<close>

definition firstHeaderNotBefore :: "jstring \<Rightarrow> bool" where
  "firstHeaderNotBefore X \<longleftrightarrow>
     (case sectionSpans (split_nl X) of
        (pre, spans) \<Rightarrow> spans = [] \<or> list_all (\<lambda>l. indexOf l (hd (hd spans)) = None) pre)"

text \<open>The text before the first header line, without the white space at its ends.\<close>

definition preambleText :: "jstring \<Rightarrow> jstring" where
  "preambleText X = trim (join nl (fst (sectionSpans (split_nl X))))"

text \<open>
  The text of a span: its lines joined by newlines, or the header line alone when the only
  other line is empty.
\<close>

definition spanText :: "jstring list \<Rightarrow> jstring" where
  "spanText span = (if tl span = [[]] then hd span else join nl span)"

text \<open>
  The texts of the sections of a document, from its spans: the document itself when it has
  no header line; otherwise the text before the first header line, trimmed, when it is not
  blank, and then the text of each span.
\<close>

definition sectionTexts :: "jstring \<Rightarrow> jstring list" where
  "sectionTexts X =
     (if snd (sectionSpans (split_nl X)) = [] then [X]
      else (if preambleText X = [] then [] else [preambleText X])
           @ map spanText (snd (sectionSpans (split_nl X))))"

text \<open>
  A document of one section: it has no header line, or it has one header line and
  nothing but white space before it.
\<close>

definition hasOneSection :: "jstring \<Rightarrow> bool" where
  "hasOneSection X \<longleftrightarrow>
     snd (sectionSpans (split_nl X)) = []
     \<or> (preambleText X = [] \<and> length (snd (sectionSpans (split_nl X))) = 1)"

section \<open>The tree merges, in closed form\<close>

text \<open>
  An ordinary key: not an array index and not the name of a property of
  \<open>Object.prototype\<close>.
\<close>

definition ordinaryKey :: "jstring \<Rightarrow> bool" where
  "ordinaryKey k \<longleftrightarrow> \<not> isArrayIndex k \<and> k \<notin> set Object_prototype_names"

text \<open>The keys of one mapping are ordinary, and none occurs twice.\<close>

definition ordinaryKeys :: "(jstring \<times> jv) list \<Rightarrow> bool" where
  "ordinaryKeys ps \<longleftrightarrow> distinct (map fst ps) \<and> list_all ordinaryKey (map fst ps)"

text \<open>
  The keys are ordinary at every level that the merge of two values reaches. The merge
  enters a pair of values when both are objects; the pair must then be two mappings with
  ordinary keys, and the same holds for the values of every key the two mappings share.
  Nothing is asked of a value the merge copies without entering it: a value under a key that
  only one side has, or a pair of which one side is not an object.
\<close>

fun ordinaryMerge :: "jv \<Rightarrow> jv \<Rightarrow> bool"
  and ordinaryMergeProps :: "(jstring \<times> jv) list \<Rightarrow> (jstring \<times> jv) list \<Rightarrow> bool"
where
  "ordinaryMerge (JObj ps) w =
     (case w of
        JObj qs \<Rightarrow> ordinaryKeys ps \<and> ordinaryKeys qs \<and> ordinaryMergeProps ps qs
      | JObjectPrototype \<Rightarrow> False
      | _ \<Rightarrow> True)"
| "ordinaryMerge JObjectPrototype w = (\<not> isPlainObject w)"
| "ordinaryMerge v w = True"
| "ordinaryMergeProps [] qs = True"
| "ordinaryMergeProps (p # ps) qs =
     ((case map_of qs (fst p) of None \<Rightarrow> True | Some w \<Rightarrow> ordinaryMerge (snd p) w)
       \<and> ordinaryMergeProps ps qs)"

text \<open>
  The merged mapping as the claim describes it: the keys of the existing mapping first, in
  its order, each with the existing value, or with the merge of the two values when both
  are mappings; then the keys that only the generated mapping has, in its order.
\<close>

fun spec_mergedValue :: "jv \<Rightarrow> jv \<Rightarrow> jv"
  and spec_mergedProps :: "(jstring \<times> jv) list \<Rightarrow> (jstring \<times> jv) list \<Rightarrow> (jstring \<times> jv) list"
where
  "spec_mergedValue (JObj ps) w =
     (case w of
        JObj qs \<Rightarrow> JObj (spec_mergedProps ps qs @ filter (\<lambda>q. fst q \<notin> fst ` set ps) qs)
      | _ \<Rightarrow> JObj ps)"
| "spec_mergedValue v w = v"
| "spec_mergedProps [] qs = []"
| "spec_mergedProps (p # ps) qs =
     (fst p, case map_of qs (fst p) of None \<Rightarrow> snd p | Some w \<Rightarrow> spec_mergedValue (snd p) w)
       # spec_mergedProps ps qs"

definition spec_merge :: "(jstring \<times> jv) list \<Rightarrow> (jstring \<times> jv) list \<Rightarrow> (jstring \<times> jv) list" where
  "spec_merge ps qs = spec_mergedProps ps qs @ filter (\<lambda>q. fst q \<notin> fst ` set ps) qs"

definition mergedAt :: "(jstring \<times> jv) list \<Rightarrow> (jstring \<times> jv) list \<Rightarrow> jstring \<Rightarrow> jv" where
  "mergedAt ps qs k =
     (case map_of qs k of
        None \<Rightarrow> the (map_of ps k)
      | Some w \<Rightarrow> spec_mergedValue (the (map_of ps k)) w)"

text \<open>The effect of one round of the loop of \<open>deepMergePreserveExisting\<close> on \<open>result\<close>.\<close>

definition dmpe_step ::
    "(jstring \<times> jv) list \<Rightarrow> (jstring \<times> jv) list \<Rightarrow> (jstring \<times> jv) list \<Rightarrow> jstring \<Rightarrow> (jstring \<times> jv) list" where
  "dmpe_step ps qs R k =
     (if k \<in> fst ` set ps then map (\<lambda>p. if fst p = k then (k, mergedAt ps qs k) else p) R
      else R @ [(k, the (map_of qs k))])"

section \<open>Evaluation on concrete inputs\<close>

lemmas js_eval = mergeJson_def isBlank_def trim_def isWhiteSpace_def JSON_parse_def skipWs_def isJsonWs_def
  parseNumber_def parseInt_def parseFrac_def parseExp_def startsWith_def endsWith_def parseDigits_def isDigit_def
  consChar_def unescape_def hexValue_def createDataProperty_def defineNew_def isArrayIndex_def keyBefore_def
  digitsValue_def js_set_def js_get_def js_in_def Object_keys_def Object_prototype_names_def fullPathOf_def
  spread_def JSON_stringify_def quoteJSONString_def quoteChar_def hexDigit_def Let_def showNat_def

lemmas md_eval = mergeMarkdown_def mergeSections_def parseMarkdownSections_def headerRegex_def matchHashes_def
  matchRest_def isLineTerminator_def nl_def finishSection_def pushCurrent_def preambleSection_def
  normalizeHeader_def toLowerCase_def keptByNormalize_def existingByHeader_def reportedHeaders_def
  isBlank_def trim_def isWhiteSpace_def isDigit_def startsWith_def Let_def

lemmas yaml_eval = parseYamlValue_def isQuoted_def Number_isNaN_def isStrNumericLiteral_def
  isNonDecimalIntegerLiteral_def isStrUnsignedDecimalLiteral_def isExponentPartOpt_def isDecimalDigits_def
  slice_1_m1_def startsWith_def endsWith_def trim_def isWhiteSpace_def isDigit_def hexValue_def

section \<open>The JSON merge: fallbacks\<close>

lemma whitespace_not_json_start:
  assumes "isWhiteSpace c" "\<not> isJsonWs c"
  shows "c \<noteq> 0x7B \<and> c \<noteq> 0x5B \<and> c \<noteq> 0x22 \<and> c \<noteq> 0x74 \<and> c \<noteq> 0x66 \<and> c \<noteq> 0x6E
     \<and> c \<noteq> 0x2D \<and> c \<noteq> 0x30 \<and> \<not> isDigit c"
  using assms by (auto simp: isWhiteSpace_def isJsonWs_def isDigit_def)

lemma parseValue_blank:
  assumes "list_all isWhiteSpace s"
  shows "parseValue (Suc n) s = None"
proof (cases "skipWs s")
  case Nil
  then show ?thesis by simp
next
  case (Cons c cs)
  then have "c \<in> set s" and "\<not> isJsonWs c"
    unfolding skipWs_def
    by (metis list.set_intros(1) set_dropWhileD, metis hd_dropWhile list.distinct(1) list.sel(1))
  with assms have "isWhiteSpace c" by (simp add: list_all_iff)
  from whitespace_not_json_start [OF this \<open>\<not> isJsonWs c\<close>] Cons show ?thesis
    by (simp add: startsWith_def parseNumber_def parseInt_def parseDigits_def)
qed

lemma dropWhile_rev_dropWhile_Nil:
  assumes "dropWhile P (rev (dropWhile P s)) = []"
  shows "dropWhile P s = []"
proof (rule ccontr)
  assume ne: "dropWhile P s \<noteq> []"
  then have "\<not> P (hd (dropWhile P s))" by (rule hd_dropWhile)
  moreover from ne have "hd (dropWhile P s) \<in> set (rev (dropWhile P s))" by simp
  moreover from assms have "\<forall>x \<in> set (rev (dropWhile P s)). P x"
    by (simp add: dropWhile_eq_Nil_conv)
  ultimately show False by blast
qed

lemma blank_all_whitespace:
  assumes "isBlank s"
  shows "list_all isWhiteSpace s"
proof -
  from assms have "s = [] \<or> dropWhile isWhiteSpace (rev (dropWhile isWhiteSpace s)) = []"
    by (simp add: isBlank_def trim_def)
  then have "dropWhile isWhiteSpace s = []"
    using dropWhile_rev_dropWhile_Nil by fastforce
  then show ?thesis by (simp add: dropWhile_eq_Nil_conv list_all_iff)
qed

text \<open>A blank text is no JSON text: white space alone is a SyntaxError.\<close>

lemma JSON_parse_blank: "isBlank s \<Longrightarrow> JSON_parse s = None"
  by (simp add: JSON_parse_def parseValue_blank blank_all_whitespace del: parseValue.simps)

text \<open>
  Claim C2, as amended. When neither text is blank and either fails to parse as JSON,
  \<open>mergeJson\<close> returns the existing text unchanged, with the one identifier
  \<open>(parse error - kept existing)\<close> in \<open>preserved\<close> and nothing in \<open>added\<close>. (\<open>mergeJson\<close> is
  a total function of its two texts: the exception of \<open>JSON.parse\<close> is the value \<open>None\<close>,
  and every branch returns a result.)
\<close>

theorem mergeJson_parse_failure:
  assumes "\<not> isBlank existing" and "\<not> isBlank generated"
    and "JSON_parse existing = None \<or> JSON_parse generated = None"
  shows "mergeJson stringify existing generated =
           \<lparr>content = existing, preserved = [S ''(parse error - kept existing)''], added = []\<rparr>"
  using assms by (auto simp: mergeJson_def split: option.splits)

theorem mergeJson_parse_failure_witness:
  \<open>\<not> isBlank (S ''{not json'') \<and> \<not> isBlank (S ''{"a":1}'') \<and> JSON_parse (S ''{not json'') = None
   \<and> mergeJson JSON_stringify (S ''{not json'') (S ''{"a":1}'') =
       \<lparr>content = S ''{not json'', preserved = [S ''(parse error - kept existing)''], added = []\<rparr>\<close>
proof -
  have a: \<open>\<not> isBlank (S ''{not json'')\<close> by (simp add: js_eval)
  have b: \<open>\<not> isBlank (S ''{"a":1}'')\<close> by (simp add: js_eval)
  have c: \<open>JSON_parse (S ''{not json'') = None\<close> by (simp add: js_eval)
  then have \<open>JSON_parse (S ''{not json'') = None \<or> JSON_parse (S ''{"a":1}'') = None\<close> ..
  from mergeJson_parse_failure [OF a b this] a b c show ?thesis by blast
qed

text \<open>
  Claim C2 as stated fails when a side is blank. The empty text is no JSON text, yet with
  it as the existing side the result is the generated document, serialised, with its keys
  in \<open>added\<close> and no sentinel.
\<close>

theorem mergeJson_blank_existing_counterexample:
  \<open>JSON_parse [] = None
   \<and> mergeJson JSON_stringify [] (S ''{"a":1}'') =
       \<lparr>content = S ''{\<newline>  "a": 1\<newline>}\<newline>'', preserved = [], added = [S ''a'']\<rparr>\<close>
  by (simp add: js_eval)

text \<open>
  Claim C3, as amended. When both texts parse and a root is not a plain object, the
  content is the existing root, serialised, and \<open>added\<close> is empty. \<open>preserved\<close> is the
  sentinel \<open>(root)\<close> when the existing root is not a plain object; when it is one (and the
  generated root is not), \<open>preserved\<close> lists the key paths of the existing root, as
  \<open>collectKeys\<close> gives them.
\<close>

theorem mergeJson_non_object_root:
  assumes "JSON_parse existing = Some e" and "JSON_parse generated = Some g"
    and "\<not> isPlainObject e \<or> \<not> isPlainObject g"
  shows "mergeJson stringify existing generated =
           \<lparr>content = stringify e @ [0x0A],
            preserved = (if isPlainObject e then collectKeys e [] [] else [S ''(root)'']),
            added = []\<rparr>"
proof -
  from assms(1) have "\<not> isBlank existing" using JSON_parse_blank by fastforce
  moreover from assms(2) have "\<not> isBlank generated" using JSON_parse_blank by fastforce
  ultimately show ?thesis using assms by (auto simp: mergeJson_def)
qed

theorem mergeJson_non_object_root_witness:
  \<open>JSON_parse (S ''[1]'') = Some (JArr [JNum (S ''1'')])
   \<and> JSON_parse (S ''{"a":1}'') = Some (JObj [(S ''a'', JNum (S ''1''))])
   \<and> mergeJson JSON_stringify (S ''[1]'') (S ''{"a":1}'') =
       \<lparr>content = S ''[\<newline>  1\<newline>]\<newline>'', preserved = [S ''(root)''], added = []\<rparr>\<close>
proof -
  have a: \<open>JSON_parse (S ''[1]'') = Some (JArr [JNum (S ''1'')])\<close> by (simp add: js_eval)
  have b: \<open>JSON_parse (S ''{"a":1}'') = Some (JObj [(S ''a'', JNum (S ''1''))])\<close> by (simp add: js_eval)
  have c: \<open>\<not> isPlainObject (JArr [JNum (S ''1'')]) \<or> \<not> isPlainObject (JObj [(S ''a'', JNum (S ''1''))])\<close> by simp
  have d: \<open>JSON_stringify (JArr [JNum (S ''1'')]) @ [0x0A] = S ''[\<newline>  1\<newline>]\<newline>''\<close> by (simp add: js_eval)
  from mergeJson_non_object_root [OF a b c, of JSON_stringify] d a b show ?thesis by simp
qed

text \<open>
  Claim C3 as stated fails when the existing root is an object and the generated root is
  an array: \<open>preserved\<close> holds the key \<open>a\<close>, not the sentinel \<open>(root)\<close>.
\<close>

theorem mergeJson_object_vs_array_counterexample:
  \<open>JSON_parse (S ''{"a":1}'') = Some (JObj [(S ''a'', JNum (S ''1''))])
   \<and> JSON_parse (S ''[1]'') = Some (JArr [JNum (S ''1'')])
   \<and> mergeJson JSON_stringify (S ''{"a":1}'') (S ''[1]'') =
       \<lparr>content = S ''{\<newline>  "a": 1\<newline>}\<newline>'', preserved = [S ''a''], added = []\<rparr>\<close>
  by (simp add: js_eval)

section \<open>The tree merges: existing wins\<close>

text \<open>
  Claim C1 on the JSON path, at the key \<open>__proto__\<close>. Both documents hold the key with a
  number. \<open>deepMergeJson\<close> assigns the existing value to \<open>result["__proto__"]\<close> on a fresh
  object, which reaches the setter of \<open>Object.prototype\<close> and creates no property: the
  merged object is empty, although the path is recorded in \<open>preserved\<close>.
\<close>

theorem mergeJson_loses_proto_key:
  \<open>JSON_parse (S ''{"__proto__":1}'') = Some (JObj [(S ''__proto__'', JNum (S ''1''))])
   \<and> JSON_parse (S ''{"__proto__":2}'') = Some (JObj [(S ''__proto__'', JNum (S ''2''))])
   \<and> mergeJson JSON_stringify (S ''{"__proto__":1}'') (S ''{"__proto__":2}'') =
       \<lparr>content = S ''{}\<newline>'', preserved = [S ''__proto__''], added = []\<rparr>\<close>
  by (simp add: js_eval)

section \<open>Provenance lists\<close>

text \<open>
  Claim C7 on the JSON path and in the section merge. In the JSON merge the key \<open>a.b\<close> and
  the key \<open>b\<close> under \<open>a\<close> have the same dotted path, and \<open>preserved\<close> holds it twice. In the
  section merge two generated sections with the header \<open>A\<close> match the same existing
  section, and \<open>preserved\<close> holds \<open>A\<close> twice.
\<close>

theorem merge_records_duplicates:
  \<open>preserved (mergeJson JSON_stringify (S ''{"a.b":1,"a":{"b":2}}'') (S ''{"a":{}}'')) = [S ''a.b'', S ''a.b'']
   \<and> preserved (mergeMarkdown (S ''# A\<newline>x'') (S ''# A\<newline>y\<newline># A\<newline>z'')) = [S ''A'', S ''A'']\<close>
  by (simp add: js_eval md_eval)

section \<open>The section merge: the preamble\<close>

text \<open>
  Claim C6 at a header \<open>Preamble\<close>. The sentinel \<open>__preamble__\<close> and the header \<open>Preamble\<close>
  have the same normalized form \<open>preamble\<close>. First: the generated preamble \<open>intro\<close> matches
  the existing titled section, whose text takes its place and whose header is recorded in
  \<open>preserved\<close>. Second: the generated titled section \<open>Preamble\<close> matches the existing
  preamble, whose text \<open>intro\<close> takes its place.
\<close>

theorem mergeMarkdown_preamble_matches_titled:
  \<open>mergeMarkdown (S ''# Preamble\<newline>Keep me'') (S ''intro\<newline># Title\<newline>body'') =
     \<lparr>content = S ''# Preamble\<newline>Keep me\<newline>\<newline># Title\<newline>body\<newline>'',
      preserved = [S ''Preamble''], added = [S ''Title'']\<rparr>
   \<and> mergeMarkdown (S ''intro\<newline># A\<newline>x'') (S ''# Preamble\<newline>new\<newline># A\<newline>y'') =
     \<lparr>content = S ''intro\<newline>\<newline># A\<newline>x\<newline>'', preserved = [S ''A''], added = []\<rparr>\<close>
  by (simp add: md_eval)

section \<open>The coercion of YAML values\<close>

lemma isQuoted_shape:
  "isQuoted v \<longleftrightarrow> v = [0x22] \<or> v = [0x27] \<or> (\<exists>mid. v = 0x22 # mid @ [0x22]) \<or> (\<exists>mid. v = 0x27 # mid @ [0x27])"
proof (cases v)
  case Nil
  then show ?thesis by (simp add: isQuoted_def startsWith_def endsWith_def)
next
  case (Cons c r)
  show ?thesis
  proof (cases r rule: rev_cases)
    case Nil
    with Cons show ?thesis by (auto simp: isQuoted_def startsWith_def endsWith_def)
  next
    case (snoc m d)
    with Cons show ?thesis by (auto simp: isQuoted_def startsWith_def endsWith_def)
  qed
qed

lemma toLowerCase_Cons:
  "toLowerCase (c # s) =
     (if 0x41 \<le> c \<and> c \<le> 0x5A then [c + 0x20]
      else if c = 0x212A then [0x6B] else if c = 0x130 then [0x69, 0x307] else [c]) @ toLowerCase s"
  by (simp add: toLowerCase_def)

lemma toLowerCase_snoc:
  "toLowerCase (s @ [c]) =
     toLowerCase s @ (if 0x41 \<le> c \<and> c \<le> 0x5A then [c + 0x20]
      else if c = 0x212A then [0x6B] else if c = 0x130 then [0x69, 0x307] else [c])"
  by (simp add: toLowerCase_def)

lemma toLowerCase_Nil: "toLowerCase [] = []"
  by (simp add: toLowerCase_def)

lemma boolean_word_ends:
  assumes "toLowerCase v = S ''true'' \<or> toLowerCase v = S ''false''"
  shows "v \<noteq> [] \<and> hd v \<in> {0x74, 0x54, 0x66, 0x46} \<and> last v \<in> {0x65, 0x45}"
proof (cases v)
  case Nil
  with assms show ?thesis by (simp add: toLowerCase_Nil)
next
  case (Cons c r)
  have h: "c \<in> {0x74, 0x54, 0x66, 0x46}"
    using assms unfolding Cons toLowerCase_Cons by (auto split: if_splits)
  from Cons have "v = butlast v @ [last v]" by simp
  then obtain m d where md: "v = m @ [d]" by blast
  have "last (toLowerCase v) = 0x65" using assms by auto
  then have "d \<in> {0x65, 0x45}"
    unfolding md toLowerCase_snoc by (auto split: if_splits)
  moreover have "last v = d" using md by simp
  moreover have "hd v = c" and "v \<noteq> []" using Cons by simp_all
  ultimately show ?thesis using h by simp
qed

lemma letters_NaN:
  assumes "v \<noteq> []" and "hd v \<in> {0x74, 0x54, 0x66, 0x46}" and "last v \<in> {0x65, 0x45}"
  shows "Number_isNaN v"
proof -
  obtain c r where v: "v = c # r" using assms(1) by (cases v) auto
  from assms(1) have "v = butlast v @ [last v]" by simp
  then obtain m d where md: "v = m @ [d]" by blast
  from assms(2) v have c: "c \<in> {0x74, 0x54, 0x66, 0x46}" by simp
  from assms(3) md have d: "d \<in> {0x65, 0x45}" by simp
  from c have nc: "\<not> isWhiteSpace c" "\<not> isDigit c" by (auto simp: isWhiteSpace_def isDigit_def)
  from d have nd: "\<not> isWhiteSpace d" by (auto simp: isWhiteSpace_def)
  have "dropWhile isWhiteSpace v = v" using v nc by simp
  moreover have "dropWhile isWhiteSpace (rev v) = rev v" using md nd by simp
  ultimately have t: "trim v = v" by (simp add: trim_def)
  have "\<not> isStrUnsignedDecimalLiteral (c # r)"
    using c nc by (auto simp: isStrUnsignedDecimalLiteral_def)
  moreover have "\<not> isNonDecimalIntegerLiteral (c # r)"
    using c by (auto simp: isNonDecimalIntegerLiteral_def split: list.splits)
  ultimately have "\<not> isStrNumericLiteral v"
    using c v by (auto simp: isStrNumericLiteral_def)
  with t v show ?thesis by (simp add: Number_isNaN_def)
qed

lemma boolean_word_not_quoted:
  assumes "v \<noteq> []" and "hd v \<in> {0x74, 0x54, 0x66, 0x46}"
  shows "\<not> isQuoted v"
  using assms by (cases v) (auto simp: isQuoted_def startsWith_def)

text \<open>
  Claim C9, as amended. A text that starts and ends with a double quote, or starts and ends
  with a single quote, yields the text between the two quotes, unchanged (nothing is
  unescaped); a text that is one quote character alone is such a text, and yields the empty
  string. The spellings \<open>true\<close>, \<open>True\<close>, \<open>TRUE\<close> yield the boolean true and \<open>false\<close>, \<open>False\<close>,
  \<open>FALSE\<close> the boolean false; every other spelling of the two words in upper and lower case
  yields itself as a string. \<open>null\<close>, \<open>~\<close> and the empty text yield null. Any other text
  yields a number when \<open>Number\<close> reads it as one, and itself as a string otherwise.
\<close>

theorem parseYamlValue_coercion:
  "parseYamlValue (0x22 # mid @ [0x22]) = JStr mid
   \<and> parseYamlValue (0x27 # mid @ [0x27]) = JStr mid
   \<and> parseYamlValue [0x22] = JStr [] \<and> parseYamlValue [0x27] = JStr []
   \<and> (isQuoted q \<longleftrightarrow>
        q = [0x22] \<or> q = [0x27] \<or> (\<exists>m. q = 0x22 # m @ [0x22]) \<or> (\<exists>m. q = 0x27 # m @ [0x27]))
   \<and> parseYamlValue (S ''true'') = JBool True \<and> parseYamlValue (S ''True'') = JBool True
   \<and> parseYamlValue (S ''TRUE'') = JBool True
   \<and> parseYamlValue (S ''false'') = JBool False \<and> parseYamlValue (S ''False'') = JBool False
   \<and> parseYamlValue (S ''FALSE'') = JBool False
   \<and> ((toLowerCase w = S ''true'' \<or> toLowerCase w = S ''false'') \<and> w \<notin> set yamlKeywords \<longrightarrow>
        parseYamlValue w = JStr w)
   \<and> parseYamlValue (S ''null'') = JNull \<and> parseYamlValue (S ''~'') = JNull \<and> parseYamlValue [] = JNull
   \<and> (\<not> isQuoted v \<and> v \<notin> set yamlKeywords \<longrightarrow>
        parseYamlValue v = (if Number_isNaN v then JStr v else JNum v))"
proof -
  have q: "isQuoted (0x22 # mid @ [0x22])" "isQuoted (0x27 # mid @ [0x27])"
    by (simp_all add: isQuoted_def startsWith_def endsWith_def)
  have s: "slice_1_m1 (0x22 # mid @ [0x22]) = mid" "slice_1_m1 (0x27 # mid @ [0x27]) = mid"
    by (simp_all add: slice_1_m1_def)
  have o: "parseYamlValue [0x22] = JStr []" "parseYamlValue [0x27] = JStr []"
    by (simp_all add: parseYamlValue_def isQuoted_def startsWith_def endsWith_def slice_1_m1_def)
  have k: "parseYamlValue (S ''true'') = JBool True" "parseYamlValue (S ''True'') = JBool True"
    "parseYamlValue (S ''TRUE'') = JBool True" "parseYamlValue (S ''false'') = JBool False"
    "parseYamlValue (S ''False'') = JBool False" "parseYamlValue (S ''FALSE'') = JBool False"
    "parseYamlValue (S ''null'') = JNull" "parseYamlValue (S ''~'') = JNull" "parseYamlValue [] = JNull"
    by (simp_all add: parseYamlValue_def isQuoted_def startsWith_def endsWith_def)
  have r: "\<not> isQuoted v \<and> v \<notin> set yamlKeywords \<longrightarrow>
        parseYamlValue v = (if Number_isNaN v then JStr v else JNum v)"
    by (simp add: parseYamlValue_def yamlKeywords_def)
  have b: "(toLowerCase w = S ''true'' \<or> toLowerCase w = S ''false'') \<and> w \<notin> set yamlKeywords \<longrightarrow>
        parseYamlValue w = JStr w"
  proof
    assume a: "(toLowerCase w = S ''true'' \<or> toLowerCase w = S ''false'') \<and> w \<notin> set yamlKeywords"
    then have e: "w \<noteq> [] \<and> hd w \<in> {0x74, 0x54, 0x66, 0x46} \<and> last w \<in> {0x65, 0x45}"
      using boolean_word_ends by blast
    then have "Number_isNaN w" and "\<not> isQuoted w"
      using letters_NaN boolean_word_not_quoted by blast+
    with a show "parseYamlValue w = JStr w"
      by (simp add: parseYamlValue_def yamlKeywords_def)
  qed
  have "parseYamlValue (0x22 # mid @ [0x22]) = JStr mid" "parseYamlValue (0x27 # mid @ [0x27]) = JStr mid"
    using q s by (simp_all add: parseYamlValue_def)
  with o k r b isQuoted_shape [of q] show ?thesis by blast
qed

theorem parseYamlValue_coercion_witness:
  \<open>parseYamlValue (S ''"a b"'') = JStr (S ''a b'')
   \<and> \<not> isQuoted (S ''12'') \<and> S ''12'' \<notin> set yamlKeywords \<and> \<not> Number_isNaN (S ''12'')
   \<and> parseYamlValue (S ''12'') = JNum (S ''12'')
   \<and> toLowerCase (S ''tRuE'') = S ''true'' \<and> S ''tRuE'' \<notin> set yamlKeywords
   \<and> parseYamlValue (S ''tRuE'') = JStr (S ''tRuE'')
   \<and> isQuoted [0x27]\<close>
proof -
  have a: \<open>\<not> isQuoted (S ''12'') \<and> S ''12'' \<notin> set yamlKeywords\<close>
    by (simp add: yaml_eval yamlKeywords_def)
  have b: \<open>\<not> Number_isNaN (S ''12'')\<close> by (simp add: yaml_eval)
  have c: \<open>toLowerCase (S ''tRuE'') = S ''true'' \<and> S ''tRuE'' \<notin> set yamlKeywords\<close>
    by (simp add: toLowerCase_def yamlKeywords_def)
  from parseYamlValue_coercion [of "S ''a b''" "[0x27]" "S ''tRuE''" "S ''12''"] a b c show ?thesis by simp
qed

text \<open>
  Claim C9 as stated fails on an escaped quote, which stays escaped, and on a spelling of
  \<open>true\<close> in mixed case, which stays a string.
\<close>

theorem parseYamlValue_counterexample:
  \<open>parseYamlValue [0x22, 0x61, 0x5C, 0x22, 0x62, 0x22] = JStr [0x61, 0x5C, 0x22, 0x62]
   \<and> parseYamlValue (S ''tRuE'') = JStr (S ''tRuE'')\<close>
  by (simp add: yaml_eval)

section \<open>The section merge: order\<close>

lemma find_append:
  "find P (xs @ ys) = (case find P xs of Some x \<Rightarrow> Some x | None \<Rightarrow> find P ys)"
  by (induction xs) auto

lemma foldl_header_map:
  "foldl (\<lambda>m section. m(normalizeHeader (header section) \<mapsto> section)) m0 ex k =
     (case find (\<lambda>e. sectionKey e = k) (rev ex) of Some e \<Rightarrow> Some e | None \<Rightarrow> m0 k)"
proof -
  define F :: "(jstring \<rightharpoonup> MarkdownSection) \<Rightarrow> MarkdownSection \<Rightarrow> (jstring \<rightharpoonup> MarkdownSection)"
    where "F = (\<lambda>m section. m(normalizeHeader (header section) \<mapsto> section))"
  have "foldl F m0 ex k =
     (case find (\<lambda>e. sectionKey e = k) (rev ex) of Some e \<Rightarrow> Some e | None \<Rightarrow> m0 k)"
  proof (induction ex arbitrary: m0)
    case Nil
    then show ?case by simp
  next
    case (Cons e ex)
    have "foldl F m0 (e # ex) k = foldl F (F m0 e) ex k" by simp
    also have "\<dots> = (case find (\<lambda>e. sectionKey e = k) (rev ex) of Some x \<Rightarrow> Some x | None \<Rightarrow> F m0 e k)"
      by (rule Cons.IH)
    also have "\<dots> = (case find (\<lambda>e. sectionKey e = k) (rev (e # ex)) of Some x \<Rightarrow> Some x | None \<Rightarrow> m0 k)"
      by (simp add: find_append F_def sectionKey_def split: option.splits)
    finally show ?case .
  qed
  then show ?thesis by (simp only: F_def)
qed

lemma existingByHeader_lookup:
  "existingByHeader ex k = matchingExisting ex k"
  by (simp add: existingByHeader_def matchingExisting_def foldl_header_map split: option.splits)

lemma mergeGenerated_closed:
  "mergeGenerated (existingByHeader ex) gen (ms, ps, as, used) =
     (ms @ map (contributedText ex) gen,
      ps @ preservedOfGenerated ex gen,
      as @ addedOfGenerated ex gen,
      used \<union> {k \<in> set (map sectionKey gen). matchingExisting ex k \<noteq> None})"
proof (induction gen arbitrary: ms ps as used)
  case Nil
  then show ?case by (simp add: preservedOfGenerated_def addedOfGenerated_def)
next
  case (Cons g gen)
  show ?case
  proof (cases "matchingExisting ex (sectionKey g)")
    case None
    then have "existingByHeader ex (normalizeHeader (header g)) = None"
      by (simp add: existingByHeader_lookup sectionKey_def)
    with None show ?thesis
      by (auto simp: Cons.IH contributedText_def preservedOfGenerated_def addedOfGenerated_def
          sectionKey_def)
  next
    case (Some e)
    then have "existingByHeader ex (normalizeHeader (header g)) = Some e"
      by (simp add: existingByHeader_lookup sectionKey_def)
    with Some show ?thesis
      by (auto simp: Cons.IH contributedText_def preservedOfGenerated_def addedOfGenerated_def
          sectionKey_def)
  qed
qed

lemma appendCustom_closed:
  "appendCustom used ex (ms, ps) =
     (ms @ map fullText (filter (\<lambda>e. normalizeHeader (header e) \<notin> used \<and> header e \<noteq> S ''__preamble__'') ex),
      ps @ map header (filter (\<lambda>e. normalizeHeader (header e) \<notin> used \<and> header e \<noteq> S ''__preamble__'') ex))"
  by (induction ex arbitrary: ms ps) auto

lemma matchingExisting_member:
  assumes "e \<in> set ex"
  shows "matchingExisting ex (sectionKey e) \<noteq> None"
proof -
  from assms have "e \<in> set (rev ex)" by simp
  then have "find (\<lambda>x. sectionKey x = sectionKey e) (rev ex) \<noteq> None"
    by (auto simp: find_None_iff)
  then show ?thesis by (simp add: matchingExisting_def)
qed

lemma used_filter:
  "filter (\<lambda>e. normalizeHeader (header e) \<notin> {k \<in> set (map sectionKey gen). matchingExisting ex k \<noteq> None}
                \<and> header e \<noteq> S ''__preamble__'') ex
   = filter (\<lambda>e. header e \<noteq> S ''__preamble__'') (unmatchedExisting ex gen)"
proof -
  have "\<And>e. e \<in> set ex \<Longrightarrow>
      (normalizeHeader (header e) \<notin> {k \<in> set (map sectionKey gen). matchingExisting ex k \<noteq> None})
      = (sectionKey e \<notin> set (map sectionKey gen))"
    using matchingExisting_member by (auto simp: sectionKey_def)
  then show ?thesis
    unfolding unmatchedExisting_def filter_filter
    by (intro filter_cong) auto
qed

lemma mergeSections_closed:
  "mergeSections ex gen =
     (map (contributedText ex) gen
        @ map fullText (filter (\<lambda>e. header e \<noteq> S ''__preamble__'') (unmatchedExisting ex gen)),
      preservedOfGenerated ex gen
        @ map header (filter (\<lambda>e. header e \<noteq> S ''__preamble__'') (unmatchedExisting ex gen)),
      addedOfGenerated ex gen)"
proof -
  have "mergeGenerated (existingByHeader ex) gen ([], [], [], {}) =
     (map (contributedText ex) gen, preservedOfGenerated ex gen, addedOfGenerated ex gen,
      {k \<in> set (map sectionKey gen). matchingExisting ex k \<noteq> None})"
    using mergeGenerated_closed [of ex gen "[]" "[]" "[]" "{}"] by simp
  then show ?thesis
    unfolding mergeSections_def by (simp only: prod.case appendCustom_closed used_filter)
qed

lemmas spec_eval = sectionKey_def matchingExisting_def contributedText_def unmatchedExisting_def

text \<open>
  Claim C5, as amended. The merged sections are, in the order of the generated document,
  the text each generated section contributes (that of the last existing section with the
  same key, or its own), followed by the existing sections whose key no generated section
  has, in their existing order, except an existing section whose header is the sentinel
  \<open>__preamble__\<close>, which is not appended. The content is these texts joined by blank lines,
  trimmed, with one newline at the end.
\<close>

theorem mergeMarkdown_section_order:
  assumes "\<not> isBlank existing" and "\<not> isBlank generated"
  shows "fst (mergeSections (parseMarkdownSections existing) (parseMarkdownSections generated)) =
       map (contributedText (parseMarkdownSections existing)) (parseMarkdownSections generated)
       @ map fullText (filter (\<lambda>e. header e \<noteq> S ''__preamble__'')
           (unmatchedExisting (parseMarkdownSections existing) (parseMarkdownSections generated)))
     \<and> content (mergeMarkdown existing generated) =
       trim (join (nl @ nl)
         (fst (mergeSections (parseMarkdownSections existing) (parseMarkdownSections generated)))) @ nl"
  using assms by (simp add: mergeMarkdown_def mergeSections_closed)

theorem mergeMarkdown_section_order_witness:
  \<open>\<not> isBlank (S ''# Title\<newline>Old\<newline>\<newline># Custom\<newline>KeepMe\<newline>'')
   \<and> \<not> isBlank (S ''# Title\<newline>New\<newline>\<newline># New Section\<newline>Added\<newline>'')
   \<and> fst (mergeSections
         (parseMarkdownSections (S ''# Title\<newline>Old\<newline>\<newline># Custom\<newline>KeepMe\<newline>''))
         (parseMarkdownSections (S ''# Title\<newline>New\<newline>\<newline># New Section\<newline>Added\<newline>'')))
       = [S ''# Title\<newline>Old\<newline>'', S ''# New Section\<newline>Added\<newline>'', S ''# Custom\<newline>KeepMe\<newline>'']\<close>
proof -
  have a: \<open>\<not> isBlank (S ''# Title\<newline>Old\<newline>\<newline># Custom\<newline>KeepMe\<newline>'')\<close>
    by (simp add: isBlank_def trim_def isWhiteSpace_def)
  have b: \<open>\<not> isBlank (S ''# Title\<newline>New\<newline>\<newline># New Section\<newline>Added\<newline>'')\<close>
    by (simp add: isBlank_def trim_def isWhiteSpace_def)
  have c: \<open>map (contributedText (parseMarkdownSections (S ''# Title\<newline>Old\<newline>\<newline># Custom\<newline>KeepMe\<newline>'')))
           (parseMarkdownSections (S ''# Title\<newline>New\<newline>\<newline># New Section\<newline>Added\<newline>''))
       @ map fullText (filter (\<lambda>e. header e \<noteq> S ''__preamble__'')
           (unmatchedExisting (parseMarkdownSections (S ''# Title\<newline>Old\<newline>\<newline># Custom\<newline>KeepMe\<newline>''))
              (parseMarkdownSections (S ''# Title\<newline>New\<newline>\<newline># New Section\<newline>Added\<newline>''))))
       = [S ''# Title\<newline>Old\<newline>'', S ''# New Section\<newline>Added\<newline>'', S ''# Custom\<newline>KeepMe\<newline>'']\<close>
    by (simp add: md_eval spec_eval)
  from mergeMarkdown_section_order [OF a b] c a b show ?thesis by simp
qed

text \<open>
  Claim C5 as stated fails for an existing preamble that no generated section matches: it
  is an existing section whose key was never matched, and it is not in the output.
\<close>

theorem mergeMarkdown_drops_preamble_counterexample:
  \<open>fst (mergeSections (parseMarkdownSections (S ''intro\<newline># A\<newline>x''))
          (parseMarkdownSections (S ''# A\<newline>y''))) = [S ''# A\<newline>x'']
   \<and> map fullText (unmatchedExisting (parseMarkdownSections (S ''intro\<newline># A\<newline>x''))
          (parseMarkdownSections (S ''# A\<newline>y''))) = [S ''intro'']
   \<and> content (mergeMarkdown (S ''intro\<newline># A\<newline>x'') (S ''# A\<newline>y'')) = S ''# A\<newline>x\<newline>''\<close>
  by (simp add: md_eval spec_eval)

lemma find_Some_member: "find P xs = Some x \<Longrightarrow> x \<in> set xs \<and> P x"
  by (induction xs) (auto split: if_splits)

lemma matchingExisting_self:
  assumes "distinct (map sectionKey secs)" and "g \<in> set secs"
  shows "matchingExisting secs (sectionKey g) = Some g"
proof -
  from matchingExisting_member [OF assms(2)] obtain e
    where e: "matchingExisting secs (sectionKey g) = Some e" by auto
  then have "e \<in> set secs" and "sectionKey e = sectionKey g"
    using find_Some_member [of "\<lambda>x. sectionKey x = sectionKey g" "rev secs" e]
    by (simp_all add: matchingExisting_def)
  moreover from assms(1) have "inj_on sectionKey (set secs)" by (simp add: distinct_map)
  ultimately have "e = g" using assms(2) by (auto dest: inj_onD)
  with e show ?thesis by simp
qed

lemma self_merge_texts:
  assumes "distinct (map sectionKey secs)"
  shows "map (contributedText secs) secs = map fullText secs"
  using matchingExisting_self [OF assms] by (simp add: contributedText_def)

lemma self_merge_preserved:
  assumes "distinct (map sectionKey secs)"
  shows "preservedOfGenerated secs secs = reportedHeaders secs"
proof -
  have "\<And>gen. set gen \<subseteq> set secs \<Longrightarrow> preservedOfGenerated secs gen = reportedHeaders gen"
  proof -
    fix gen show "set gen \<subseteq> set secs \<Longrightarrow> preservedOfGenerated secs gen = reportedHeaders gen"
      using matchingExisting_self [OF assms]
      by (induction gen) (simp_all add: preservedOfGenerated_def reportedHeaders_def)
  qed
  then show ?thesis by simp
qed

lemma self_merge_added: "addedOfGenerated secs secs = []"
proof -
  have "\<And>g. g \<in> set secs \<Longrightarrow>
      (case matchingExisting secs (sectionKey g) of
         Some e \<Rightarrow> []
       | None \<Rightarrow> if header g \<noteq> S ''__preamble__'' then [header g] else []) = []"
  proof -
    fix g assume "g \<in> set secs"
    from matchingExisting_member [OF this] obtain e
      where "matchingExisting secs (sectionKey g) = Some e" by auto
    then show "(case matchingExisting secs (sectionKey g) of
         Some e \<Rightarrow> []
       | None \<Rightarrow> if header g \<noteq> S ''__preamble__'' then [header g] else []) = []"
      by simp
  qed
  then show ?thesis by (simp add: addedOfGenerated_def)
qed

lemma self_merge_unmatched: "unmatchedExisting secs secs = []"
  by (simp add: unmatchedExisting_def filter_empty_conv)

section \<open>The section parser: round trip\<close>

lemma split_nl_nonempty: "split_nl s \<noteq> []"
  by (induction s) (auto split: list.splits)

lemma join_Cons: "xs \<noteq> [] \<Longrightarrow> join sep (x # xs) = x @ sep @ join sep xs"
  by (cases xs) simp_all

lemma join_split_nl: "join nl (split_nl s) = s"
proof (induction s)
  case Nil
  then show ?case by simp
next
  case (Cons c cs)
  show ?case
  proof (cases "c = 0x0A")
    case True
    with Cons show ?thesis by (simp add: join_Cons split_nl_nonempty nl_def)
  next
    case False
    obtain l ls where l: "split_nl cs = l # ls"
      using split_nl_nonempty [of cs] by (cases "split_nl cs") auto
    with Cons have "join nl (l # ls) = cs" by simp
    then have "join nl ((c # l) # ls) = c # cs" by (cases ls) simp_all
    with False l show ?thesis by simp
  qed
qed

lemma join_eq_Nil: "join nl xs = [] \<longleftrightarrow> xs = [] \<or> xs = [[]]"
proof (cases xs)
  case Nil
  then show ?thesis by simp
next
  case (Cons x ys)
  then show ?thesis by (cases ys) (simp_all add: nl_def)
qed

lemma sectionSpans_lines: "fst (sectionSpans ls) @ concat (snd (sectionSpans ls)) = ls"
  by (induction ls) (auto split: prod.splits)

lemma sectionSpans_no_header:
  "snd (sectionSpans ls) = [] \<Longrightarrow> fst (sectionSpans ls) = ls"
  using sectionSpans_lines [of ls] by simp

lemma sectionSpans_header_first:
  "span \<in> set (snd (sectionSpans ls)) \<Longrightarrow> span \<noteq> [] \<and> isHeaderLine (hd span)"
  by (induction ls arbitrary: span) (auto split: prod.splits if_splits)

lemma parseLines_spans:
  "(case parseLines ls sections cur cl of (s', c', cl') \<Rightarrow> pushCurrent s' c' cl') =
     (case sectionSpans ls of
        (pre, spans) \<Rightarrow> pushCurrent sections cur (cl @ pre) @ map sectionOfSpan spans)"
proof (induction ls arbitrary: sections cur cl)
  case Nil
  then show ?case by simp
next
  case (Cons l ls)
  obtain pre spans where sp: "sectionSpans ls = (pre, spans)" by (cases "sectionSpans ls")
  show ?case
  proof (cases "headerRegex l")
    case None
    then have "\<not> isHeaderLine l" by (simp add: isHeaderLine_def)
    with None sp Cons.IH [of sections cur "cl @ [l]"] show ?thesis by simp
  next
    case (Some m)
    obtain n t where m: "m = (n, t)" by (cases m)
    from Some have h: "isHeaderLine l" by (simp add: isHeaderLine_def)
    have o: "openSection l =
        \<lparr>header = trim t, level = n, rawHeader = l, sectionContent = [], fullText = []\<rparr>"
      using Some m by (simp add: openSection_def)
    have "(case parseLines (l # ls) sections cur cl of (s', c', cl') \<Rightarrow> pushCurrent s' c' cl') =
        (case parseLines ls (pushCurrent sections cur cl) (Some (openSection l)) [] of
           (s', c', cl') \<Rightarrow> pushCurrent s' c' cl')"
      using Some m o by simp
    also have "\<dots> = pushCurrent (pushCurrent sections cur cl) (Some (openSection l)) pre
        @ map sectionOfSpan spans"
      using Cons.IH [of "pushCurrent sections cur cl" "Some (openSection l)" "[]"] sp by simp
    also have "\<dots> = pushCurrent sections cur cl @ map sectionOfSpan ((l # pre) # spans)"
      by (simp add: pushCurrent_def sectionOfSpan_def)
    finally show ?thesis using h sp by simp
  qed
qed

lemma parseLines_no_header:
  "snd (sectionSpans ls) = [] \<Longrightarrow> parseLines ls sections cur cl = (sections, cur, cl @ ls)"
proof (induction ls arbitrary: cl)
  case Nil
  then show ?case by simp
next
  case (Cons l ls)
  from Cons.prems have nh: "\<not> isHeaderLine l" and rest: "snd (sectionSpans ls) = []"
    by (auto split: prod.splits if_splits)
  from nh have "headerRegex l = None" by (cases "headerRegex l") (auto simp: isHeaderLine_def)
  with Cons.IH [OF rest, of "cl @ [l]"] show ?case by simp
qed

lemma headerRegex_Nil: "headerRegex [] = None"
  by (simp add: headerRegex_def matchHashes_def)

lemma sectionOfSpan_rawHeader: "rawHeader (sectionOfSpan span) = hd span"
  by (simp add: sectionOfSpan_def finishSection_def openSection_def split: option.splits)

lemma titled_rawHeader:
  assumes "span \<in> set (snd (sectionSpans ls))"
  shows "rawHeader (sectionOfSpan span) \<noteq> []"
proof -
  from sectionSpans_header_first [OF assms] have "isHeaderLine (hd span)" by simp
  then have "hd span \<noteq> []" using headerRegex_Nil by (auto simp: isHeaderLine_def)
  then show ?thesis by (simp add: sectionOfSpan_rawHeader)
qed

lemma pushed_sections:
  "(case parseLines ls [] None [] of (s', c', cl') \<Rightarrow> pushCurrent s' c' cl')
     = map sectionOfSpan (snd (sectionSpans ls))"
  using parseLines_spans [of ls "[]" None "[]"]
  by (simp add: pushCurrent_def split: prod.splits)

lemma parse_no_header:
  assumes "snd (sectionSpans (split_nl X)) = []"
  shows "parseMarkdownSections X = [preambleSection X]"
proof -
  from parseLines_no_header [OF assms, of "[]" None "[]"]
  have "parseLines (split_nl X) [] None [] = ([], None, split_nl X)" by simp
  then show ?thesis
    by (simp add: parseMarkdownSections_def Let_def pushCurrent_def split_nl_nonempty join_split_nl)
qed

lemma parse_titled:
  "filter (\<lambda>s. rawHeader s \<noteq> []) (parseMarkdownSections X)
     = map sectionOfSpan (snd (sectionSpans (split_nl X)))"
proof -
  let ?spans = "snd (sectionSpans (split_nl X))"
  let ?secs = "map sectionOfSpan ?spans"
  obtain s0 cur cl where p: "parseLines (split_nl X) [] None [] = (s0, cur, cl)"
    by (cases "parseLines (split_nl X) [] None []") auto
  with pushed_sections [of "split_nl X"] have ps: "pushCurrent s0 cur cl = ?secs" by simp
  have all: "filter (\<lambda>s. rawHeader s \<noteq> []) ?secs = ?secs"
    using titled_rawHeader by (simp add: filter_id_conv)
  have pre: "\<And>t. filter (\<lambda>s. rawHeader s \<noteq> []) (preambleSection t # ?secs) = ?secs"
    using all by (simp add: preambleSection_def)
  show ?thesis
  proof (cases "?secs = []")
    case True
    then have "parseMarkdownSections X = [preambleSection X]" by (simp add: parse_no_header)
    with True show ?thesis by (simp add: preambleSection_def)
  next
    case False
    with p ps pre all show ?thesis
      by (simp add: parseMarkdownSections_def Let_def split: option.splits)
  qed
qed

lemma span_round_trip:
  assumes "span \<noteq> []"
  shows "rawHeader (sectionOfSpan span) = hd span
     \<and> sectionContent (sectionOfSpan span) = join nl (tl span)
     \<and> fullText (sectionOfSpan span) = reassemble (sectionOfSpan span)
     \<and> reassemble (sectionOfSpan span) = (if tl span = [[]] then hd span else join nl span)"
proof -
  obtain h b where sp: "span = h # b" using assms by (cases span) auto
  have c1: "rawHeader (sectionOfSpan span) = hd span" by (rule sectionOfSpan_rawHeader)
  have c2: "sectionContent (sectionOfSpan span) = join nl (tl span)"
    by (simp add: sectionOfSpan_def finishSection_def)
  have c3: "fullText (sectionOfSpan span) = reassemble (sectionOfSpan span)"
    by (simp add: sectionOfSpan_def finishSection_def reassemble_def)
  have r: "reassemble (sectionOfSpan span) = h @ (if join nl b \<noteq> [] then nl @ join nl b else [])"
    using c1 c2 sp by (simp add: reassemble_def)
  have c4: "reassemble (sectionOfSpan span) = (if tl span = [[]] then hd span else join nl span)"
  proof (cases "b = []")
    case True
    with r sp show ?thesis by simp
  next
    case False
    note ne = this
    show ?thesis
    proof (cases "b = [[]]")
      case True
      with r sp show ?thesis by simp
    next
      case False
      with ne have "join nl b \<noteq> []" by (simp add: join_eq_Nil)
      moreover from ne have "join nl (h # b) = h @ nl @ join nl b" by (simp add: join_Cons)
      ultimately show ?thesis using r sp False by simp
    qed
  qed
  from c1 c2 c3 c4 show ?thesis by (intro conjI)
qed

lemma join_append:
  "xs \<noteq> [] \<Longrightarrow> ys \<noteq> [] \<Longrightarrow> join sep (xs @ ys) = join sep xs @ sep @ join sep ys"
proof (induction xs)
  case Nil
  then show ?case by simp
next
  case (Cons x xs)
  show ?case
  proof (cases "xs = []")
    case True
    with Cons.prems show ?thesis by (simp add: join_Cons)
  next
    case False
    with Cons show ?thesis by (simp add: join_Cons)
  qed
qed

lemma trim_snoc_ws:
  assumes "isWhiteSpace c"
  shows "trim (s @ [c]) = trim s"
proof (cases "dropWhile isWhiteSpace s = []")
  case True
  then have "\<forall>x \<in> set s. isWhiteSpace x" by (simp add: dropWhile_eq_Nil_conv)
  with assms have a: "dropWhile isWhiteSpace (s @ [c]) = []" by (simp add: dropWhile_eq_Nil_conv)
  show ?thesis unfolding trim_def a True by simp
next
  case False
  then have "\<exists>x \<in> set s. \<not> isWhiteSpace x" by (simp add: dropWhile_eq_Nil_conv)
  then have "dropWhile isWhiteSpace (s @ [c]) = dropWhile isWhiteSpace s @ [c]"
    by (auto simp: dropWhile_append1)
  with assms show ?thesis by (simp add: trim_def)
qed

lemma trim_ws_prefix:
  assumes "list_all isWhiteSpace w"
  shows "trim (w @ t) = trim t"
proof -
  from assms have "dropWhile isWhiteSpace (w @ t) = dropWhile isWhiteSpace t"
    by (simp add: dropWhile_append2 list_all_iff)
  then show ?thesis by (simp add: trim_def)
qed

lemma trim_Nil_all_whitespace: "trim s = [] \<Longrightarrow> list_all isWhiteSpace s"
  using blank_all_whitespace by (simp add: isBlank_def)

lemma header_line_nonempty: "isHeaderLine l \<Longrightarrow> l \<noteq> []"
  using headerRegex_Nil by (auto simp: isHeaderLine_def)

lemma indexOf_startsWith:
  assumes "p \<noteq> []" and "s = p @ r"
  shows "indexOf s p = Some 0"
proof -
  from assms have "s \<noteq> []" by simp
  then obtain c cs where s: "s = c # cs" by (cases s) auto
  from assms(2) have "startsWith s p" by (simp add: startsWith_def)
  with s show ?thesis by simp
qed

text \<open>The sections of a document with a header line.\<close>

lemma parse_with_headers:
  assumes sp: "sectionSpans (split_nl X) = (pre, spans)" and ne: "spans \<noteq> []"
    and found: "firstHeaderFoundAtItsLine X"
  shows "parseMarkdownSections X =
           (if trim (join nl pre) = [] then [] else [preambleSection (trim (join nl pre))])
           @ map sectionOfSpan spans"
proof -
  let ?secs = "map sectionOfSpan spans"
  obtain s0 cur cl where p: "parseLines (split_nl X) [] None [] = (s0, cur, cl)"
    by (cases "parseLines (split_nl X) [] None []") auto
  with pushed_sections [of "split_nl X"] sp have ps: "pushCurrent s0 cur cl = ?secs" by simp
  from ne obtain span rest where spans: "spans = span # rest" by (cases spans) auto
  from sectionSpans_header_first [of span "split_nl X"] sp spans
  have span: "span \<noteq> []" and hl: "isHeaderLine (hd span)" by simp_all
  then have hne: "hd span \<noteq> []" by (simp add: header_line_nonempty)
  have raw: "rawHeader (hd ?secs) = hd span" using spans by (simp add: sectionOfSpan_rawHeader)
  have lines: "pre @ concat spans = split_nl X" using sectionSpans_lines [of "split_nl X"] sp by simp
  have cs: "concat spans \<noteq> []" using spans span by simp
  have hd_cs: "hd (concat spans) = hd span" using spans span by simp
  have jc: "\<exists>r. join nl (concat spans) = hd span @ r"
  proof -
    obtain l ls where "concat spans = l # ls" using cs by (cases "concat spans") auto
    with hd_cs show ?thesis by (cases ls) auto
  qed
  have X: "X = join nl (pre @ concat spans)" using lines join_split_nl [of X] by simp
  have parse: "parseMarkdownSections X =
      (case indexOf X (hd span) of
         None \<Rightarrow> ?secs
       | Some i \<Rightarrow> if 0 < i \<and> trim (take i X) \<noteq> [] then preambleSection (trim (take i X)) # ?secs
                   else ?secs)"
    unfolding parseMarkdownSections_def p prod.case Let_def ps raw using ne by simp
  show ?thesis
  proof (cases "pre = []")
    case True
    with X jc obtain r where "X = hd span @ r" by auto
    with hne have "indexOf X (hd span) = Some 0" by (simp add: indexOf_startsWith)
    with parse True show ?thesis by (simp add: trim_def)
  next
    case False
    with found sp ne spans have i: "indexOf X (hd span) = Some (length (join nl pre) + 1)"
      by (simp add: firstHeaderFoundAtItsLine_def)
    from False cs X have "X = join nl pre @ nl @ join nl (concat spans)" by (simp add: join_append)
    then have "take (length (join nl pre) + 1) X = join nl pre @ nl" by (simp add: nl_def)
    moreover have "trim (join nl pre @ nl) = trim (join nl pre)"
      unfolding nl_def by (rule trim_snoc_ws) (simp add: isWhiteSpace_def)
    ultimately have "trim (take (length (join nl pre) + 1) X) = trim (join nl pre)" by simp
    with parse i show ?thesis by simp
  qed
qed

lemma fullText_sectionOfSpan: "span \<noteq> [] \<Longrightarrow> fullText (sectionOfSpan span) = spanText span"
  using span_round_trip [of span] by (simp add: spanText_def)

lemma fullTexts_of_spans:
  "map fullText (map sectionOfSpan (snd (sectionSpans ls))) = map spanText (snd (sectionSpans ls))"
  using sectionSpans_header_first [of _ ls] by (simp add: fullText_sectionOfSpan)

lemma parse_sectionTexts:
  assumes "firstHeaderFoundAtItsLine X"
  shows "map fullText (parseMarkdownSections X) = sectionTexts X"
proof (cases "snd (sectionSpans (split_nl X)) = []")
  case True
  then show ?thesis by (simp add: parse_no_header sectionTexts_def preambleSection_def)
next
  case False
  obtain pre spans where sp: "sectionSpans (split_nl X) = (pre, spans)"
    by (cases "sectionSpans (split_nl X)")
  with False have ne: "spans \<noteq> []" by simp
  from fullTexts_of_spans [of "split_nl X"] sp
  have "map fullText (map sectionOfSpan spans) = map spanText spans" by simp
  with parse_with_headers [OF sp ne assms] sp ne show ?thesis
    by (simp add: sectionTexts_def preambleText_def preambleSection_def)
qed

lemma header_starts_with_hash: "isHeaderLine l \<Longrightarrow> l \<noteq> [] \<and> hd l = 0x23"
  by (cases l) (auto simp: isHeaderLine_def headerRegex_def matchHashes_def split: option.splits if_splits)

lemma indexOf_after_white_space:
  assumes "list_all isWhiteSpace w" and "h \<noteq> []" and "\<not> isWhiteSpace (hd h)"
  shows "indexOf (w @ h @ r) h = Some (length w)"
  using assms(1)
proof (induction w)
  case Nil
  from assms(2) show ?case by (simp add: indexOf_startsWith)
next
  case (Cons c w)
  from assms(2) obtain a h' where h: "h = a # h'" by (cases h) auto
  with assms(3) Cons.prems have "c \<noteq> a" by auto
  with h have "\<not> startsWith (c # w @ h @ r) h" by (simp add: startsWith_def)
  with Cons show ?case by simp
qed

lemma spans_text:
  assumes sp: "sectionSpans (split_nl X) = (pre, spans)" and ne: "spans \<noteq> []"
  shows "concat spans \<noteq> []" and "\<exists>r. join nl (concat spans) = hd (hd spans) @ r"
    and "isHeaderLine (hd (hd spans))" and "X = join nl (pre @ concat spans)"
proof -
  from ne obtain span rest where spans: "spans = span # rest" by (cases spans) auto
  from sectionSpans_header_first [of span "split_nl X"] sp spans
  have span: "span \<noteq> []" and hl: "isHeaderLine (hd span)" by simp_all
  show cs: "concat spans \<noteq> []" using spans span by simp
  have hd_cs: "hd (concat spans) = hd span" using spans span by simp
  obtain l ls where "concat spans = l # ls" using cs by (cases "concat spans") auto
  with hd_cs spans show "\<exists>r. join nl (concat spans) = hd (hd spans) @ r" by (cases ls) auto
  show "isHeaderLine (hd (hd spans))" using hl spans by simp
  show "X = join nl (pre @ concat spans)"
    using sectionSpans_lines [of "split_nl X"] sp join_split_nl [of X] by simp
qed

lemma blank_preamble_found:
  assumes sp: "sectionSpans (split_nl X) = (pre, spans)" and blank: "trim (join nl pre) = []"
  shows "firstHeaderFoundAtItsLine X"
proof (cases "pre = [] \<or> spans = []")
  case True
  with sp show ?thesis by (auto simp: firstHeaderFoundAtItsLine_def)
next
  case False
  then have pre: "pre \<noteq> []" and ne: "spans \<noteq> []" by simp_all
  note t = spans_text [OF sp ne]
  from t(2) obtain r where r: "join nl (concat spans) = hd (hd spans) @ r" by blast
  from t(3) have h: "hd (hd spans) \<noteq> []" "\<not> isWhiteSpace (hd (hd (hd spans)))"
    using header_starts_with_hash [of "hd (hd spans)"] by (simp_all add: isWhiteSpace_def)
  from blank have "list_all isWhiteSpace (join nl pre)" by (rule trim_Nil_all_whitespace)
  then have w: "list_all isWhiteSpace (join nl pre @ nl)" by (simp add: nl_def isWhiteSpace_def)
  from t(4) pre t(1) r have "X = (join nl pre @ nl) @ hd (hd spans) @ r" by (simp add: join_append)
  with indexOf_after_white_space [OF w h, of r]
  have "indexOf X (hd (hd spans)) = Some (length (join nl pre) + 1)" by (simp add: nl_def)
  with sp show ?thesis by (simp add: firstHeaderFoundAtItsLine_def)
qed

lemma split_nl_no_newline: "l \<in> set (split_nl s) \<Longrightarrow> 0x0A \<notin> set l"
proof (induction s arbitrary: l)
  case Nil
  then show ?case by simp
next
  case (Cons c cs)
  obtain x xs where x: "split_nl cs = x # xs"
    using split_nl_nonempty [of cs] by (cases "split_nl cs") auto
  show ?case
  proof (cases "c = 0x0A")
    case True
    with Cons show ?thesis by auto
  next
    case False
    with Cons.prems x have "l = c # x \<or> l \<in> set xs" by simp
    then show ?thesis
    proof
      assume "l = c # x"
      moreover have "0x0A \<notin> set x" using Cons.IH [of x] x by simp
      ultimately show ?thesis using False by simp
    next
      assume "l \<in> set xs"
      then show ?thesis using Cons.IH [of l] x by simp
    qed
  qed
qed

lemma indexOf_past_line:
  assumes "0x0A \<notin> set h" and "h \<noteq> []" and "indexOf l h = None"
  shows "indexOf (l @ 0x0A # rest) h = map_option (\<lambda>i. length l + 1 + i) (indexOf rest h)"
  using assms(3)
proof (induction l)
  case Nil
  from assms(1,2) have "\<not> startsWith (0x0A # rest) h"
    by (cases h) (auto simp: startsWith_def)
  then show ?case by (simp split: option.splits)
next
  case (Cons c l)
  from Cons.prems have ns: "\<not> startsWith (c # l) h" and rest: "indexOf l h = None"
    by (simp_all split: if_splits option.splits)
  have "\<not> startsWith (c # l @ 0x0A # rest) h"
  proof
    assume "startsWith (c # l @ 0x0A # rest) h"
    then have t: "take (length h) ((c # l) @ 0x0A # rest) = h" by (simp add: startsWith_def)
    show False
    proof (cases "length h \<le> length (c # l)")
      case True
      have "take (length h) ((c # l) @ 0x0A # rest) = take (length h) (c # l)"
        using True by (subst take_append) simp
      with t have "take (length h) (c # l) = h" by simp
      with ns show False by (simp add: startsWith_def)
    next
      case False
      then have "length (c # l) < length h" by simp
      then have "take (length h) ((c # l) @ 0x0A # rest) ! length (c # l) = 0x0A"
        by (simp add: nth_append)
      with t have "h ! length (c # l) = 0x0A" by simp
      with \<open>length (c # l) < length h\<close> have "0x0A \<in> set h" by (metis nth_mem)
      with assms(1) show False by simp
    qed
  qed
  with Cons.IH [OF rest] show ?case by (simp add: option.map_comp comp_def split: option.splits)
qed

lemma indexOf_past_lines:
  assumes "0x0A \<notin> set h" and "h \<noteq> []" and "pre \<noteq> []"
    and "list_all (\<lambda>l. indexOf l h = None) pre"
  shows "indexOf (join nl pre @ nl @ h @ r) h = Some (length (join nl pre) + 1)"
  using assms(3,4)
proof (induction pre)
  case Nil
  then show ?case by simp
next
  case (Cons l ls)
  from Cons.prems have l: "indexOf l h = None" by simp
  show ?case
  proof (cases "ls = []")
    case True
    have "indexOf (l @ 0x0A # (h @ r)) h = map_option (\<lambda>i. length l + 1 + i) (indexOf (h @ r) h)"
      using assms(1,2) l by (rule indexOf_past_line)
    with assms(2) True show ?thesis by (simp add: indexOf_startsWith nl_def)
  next
    case False
    with Cons have ih: "indexOf (join nl ls @ nl @ h @ r) h = Some (length (join nl ls) + 1)" by simp
    have "indexOf (l @ 0x0A # (join nl ls @ nl @ h @ r)) h
        = map_option (\<lambda>i. length l + 1 + i) (indexOf (join nl ls @ nl @ h @ r) h)"
      using assms(1,2) l by (rule indexOf_past_line)
    with ih False show ?thesis by (simp add: join_Cons nl_def)
  qed
qed

lemma first_header_member:
  assumes sp: "sectionSpans (split_nl X) = (pre, spans)" and ne: "spans \<noteq> []"
  shows "hd (hd spans) \<in> set (split_nl X)"
proof -
  from ne obtain span rest where spans: "spans = span # rest" by (cases spans) auto
  from sectionSpans_header_first [of span "split_nl X"] sp spans have "span \<noteq> []" by simp
  then have "hd span \<in> set span" by simp
  with spans have "hd (hd spans) \<in> set (pre @ concat spans)" by simp
  with sectionSpans_lines [of "split_nl X"] sp show ?thesis by simp
qed

lemma not_before_found:
  assumes "firstHeaderNotBefore X"
  shows "firstHeaderFoundAtItsLine X"
proof -
  obtain pre spans where sp: "sectionSpans (split_nl X) = (pre, spans)"
    by (cases "sectionSpans (split_nl X)")
  show ?thesis
  proof (cases "pre = [] \<or> spans = []")
    case True
    with sp show ?thesis by (auto simp: firstHeaderFoundAtItsLine_def)
  next
    case False
    then have pre: "pre \<noteq> []" and ne: "spans \<noteq> []" by simp_all
    note t = spans_text [OF sp ne]
    let ?h = "hd (hd spans)"
    from t(2) obtain r where r: "join nl (concat spans) = ?h @ r" by blast
    from t(3) have h: "?h \<noteq> []" by (rule header_line_nonempty)
    have "?h \<in> set (split_nl X)" using sp ne by (rule first_header_member)
    then have nn: "0x0A \<notin> set ?h" by (rule split_nl_no_newline)
    from assms sp ne have all: "list_all (\<lambda>l. indexOf l ?h = None) pre"
      by (simp add: firstHeaderNotBefore_def)
    from t(4) pre t(1) r have "X = join nl pre @ nl @ ?h @ r" by (simp add: join_append)
    with indexOf_past_lines [OF nn h pre all, of r]
    have "indexOf X ?h = Some (length (join nl pre) + 1)" by simp
    with sp show ?thesis by (simp add: firstHeaderFoundAtItsLine_def)
  qed
qed

lemma trim_spanText: "trim (spanText span) = trim (join nl span)"
proof (cases "tl span = [[]]")
  case True
  then obtain h where "span = [h, []]" by (cases span) auto
  then show ?thesis
    using trim_snoc_ws [of "0x0A" h] by (simp add: spanText_def nl_def isWhiteSpace_def)
next
  case False
  then show ?thesis by (simp add: spanText_def)
qed

lemma one_section_texts:
  assumes "hasOneSection X"
  shows "trim (join (nl @ nl) (map fullText (parseMarkdownSections X))) = trim X"
proof (cases "snd (sectionSpans (split_nl X)) = []")
  case True
  then show ?thesis by (simp add: parse_no_header preambleSection_def)
next
  case False
  obtain pre spans where sp: "sectionSpans (split_nl X) = (pre, spans)"
    by (cases "sectionSpans (split_nl X)")
  with False assms obtain span where spans: "spans = [span]" and blank: "trim (join nl pre) = []"
    by (cases spans) (auto simp: hasOneSection_def preambleText_def)
  from blank_preamble_found [OF sp blank] have "map fullText (parseMarkdownSections X) = sectionTexts X"
    by (rule parse_sectionTexts)
  with sp spans blank have texts: "map fullText (parseMarkdownSections X) = [spanText span]"
    by (simp add: sectionTexts_def preambleText_def)
  have ne: "spans \<noteq> []" using spans by simp
  note t = spans_text [OF sp ne]
  have "trim X = trim (join nl span)"
  proof (cases "pre = []")
    case True
    with t(4) spans show ?thesis by simp
  next
    case False
    with t(4) t(1) spans have "X = (join nl pre @ nl) @ join nl span" by (simp add: join_append)
    moreover from blank have "list_all isWhiteSpace (join nl pre @ nl)"
      using trim_Nil_all_whitespace [of "join nl pre"] by (simp add: nl_def isWhiteSpace_def)
    ultimately show ?thesis using trim_ws_prefix by metis
  qed
  with texts show ?thesis by (simp add: trim_spanText)
qed

lemma parse_shape:
  "parseMarkdownSections X = map sectionOfSpan (snd (sectionSpans (split_nl X)))
   \<or> (\<exists>t. parseMarkdownSections X = preambleSection t # map sectionOfSpan (snd (sectionSpans (split_nl X))))"
proof (cases "snd (sectionSpans (split_nl X)) = []")
  case True
  then have "parseMarkdownSections X = [preambleSection X]" by (rule parse_no_header)
  with True show ?thesis by (intro disjI2 exI [of _ X]) simp
next
  case False
  obtain s0 cur cl where p: "parseLines (split_nl X) [] None [] = (s0, cur, cl)"
    by (cases "parseLines (split_nl X) [] None []") auto
  with pushed_sections [of "split_nl X"]
  have ps: "pushCurrent s0 cur cl = map sectionOfSpan (snd (sectionSpans (split_nl X)))" by simp
  show ?thesis
    unfolding parseMarkdownSections_def p prod.case Let_def ps using False
    by (auto split: option.splits)
qed

lemma reportedHeaders_spans:
  "reportedHeaders (parseMarkdownSections X) =
     filter (\<lambda>h. h \<noteq> S ''__preamble__'')
       (map (\<lambda>span. header (sectionOfSpan span)) (snd (sectionSpans (split_nl X))))"
proof -
  let ?secs = "map sectionOfSpan (snd (sectionSpans (split_nl X)))"
  have a: "reportedHeaders ?secs = filter (\<lambda>h. h \<noteq> S ''__preamble__'')
       (map (\<lambda>span. header (sectionOfSpan span)) (snd (sectionSpans (split_nl X))))"
    by (simp add: reportedHeaders_def filter_map comp_def)
  have b: "\<And>t. reportedHeaders (preambleSection t # ?secs) = reportedHeaders ?secs"
    by (simp add: reportedHeaders_def preambleSection_def)
  from parse_shape [of X] show ?thesis
  proof
    assume "parseMarkdownSections X = ?secs"
    with a show ?thesis by simp
  next
    assume "\<exists>t. parseMarkdownSections X = preambleSection t # ?secs"
    then obtain t where "parseMarkdownSections X = preambleSection t # ?secs" by blast
    with a b [of t] show ?thesis by simp
  qed
qed

text \<open>
  Claim C8, as amended. The lines of a document are its text, and they are the lines
  before the first header line followed by the spans, one per header line. The titled
  sections of the parser (those with a raw header line) are the sections of the spans, in
  order. For each of them the raw header line is the first line of the span, the body is
  the other lines joined by newlines, and the full text is the raw header line and the
  body with a newline between them when the body is not empty; this reproduces the lines
  of the span joined by newlines unless the body is exactly one empty line, where it is the
  header line alone. A preamble section has an empty raw header line, and its body is its
  full text; the raw header line and a body that is not empty, with a newline between
  them, is then a newline followed by the body, not the body. A document with no header
  line is parsed to one preamble section, whose body is the document. In a document with
  header lines where
  the text of the first header line does not occur before that line, the sections are
  those of the spans, preceded, when the text before the first header line is not blank, by
  a preamble section whose body is that text without the white space at its ends.
\<close>

theorem section_round_trip:
  "join nl (split_nl X) = X
   \<and> fst (sectionSpans (split_nl X)) @ concat (snd (sectionSpans (split_nl X))) = split_nl X
   \<and> filter (\<lambda>s. rawHeader s \<noteq> []) (parseMarkdownSections X)
       = map sectionOfSpan (snd (sectionSpans (split_nl X)))
   \<and> list_all (\<lambda>span.
         rawHeader (sectionOfSpan span) = hd span
         \<and> sectionContent (sectionOfSpan span) = join nl (tl span)
         \<and> fullText (sectionOfSpan span) = reassemble (sectionOfSpan span)
         \<and> reassemble (sectionOfSpan span) = (if tl span = [[]] then hd span else join nl span))
       (snd (sectionSpans (split_nl X)))
   \<and> (snd (sectionSpans (split_nl X)) = [] \<longrightarrow> parseMarkdownSections X = [preambleSection X])
   \<and> (snd (sectionSpans (split_nl X)) \<noteq> [] \<and> firstHeaderNotBefore X \<longrightarrow>
        parseMarkdownSections X =
          (if preambleText X = [] then [] else [preambleSection (preambleText X)])
          @ map sectionOfSpan (snd (sectionSpans (split_nl X))))
   \<and> rawHeader (preambleSection t) = [] \<and> sectionContent (preambleSection t) = t
   \<and> fullText (preambleSection t) = t
   \<and> reassemble (preambleSection t) = (if t = [] then [] else nl @ t)"
proof -
  have a: "list_all (\<lambda>span.
         rawHeader (sectionOfSpan span) = hd span
         \<and> sectionContent (sectionOfSpan span) = join nl (tl span)
         \<and> fullText (sectionOfSpan span) = reassemble (sectionOfSpan span)
         \<and> reassemble (sectionOfSpan span) = (if tl span = [[]] then hd span else join nl span))
       (snd (sectionSpans (split_nl X)))"
    unfolding list_all_iff using span_round_trip sectionSpans_header_first by blast
  have b: "snd (sectionSpans (split_nl X)) \<noteq> [] \<and> firstHeaderNotBefore X \<longrightarrow>
        parseMarkdownSections X =
          (if preambleText X = [] then [] else [preambleSection (preambleText X)])
          @ map sectionOfSpan (snd (sectionSpans (split_nl X)))"
  proof
    assume h: "snd (sectionSpans (split_nl X)) \<noteq> [] \<and> firstHeaderNotBefore X"
    obtain pre spans where sp: "sectionSpans (split_nl X) = (pre, spans)"
      by (cases "sectionSpans (split_nl X)")
    with h have "spans \<noteq> []" and "firstHeaderFoundAtItsLine X" by (simp_all add: not_before_found)
    from parse_with_headers [OF sp this] sp
    show "parseMarkdownSections X =
          (if preambleText X = [] then [] else [preambleSection (preambleText X)])
          @ map sectionOfSpan (snd (sectionSpans (split_nl X)))"
      by (simp add: preambleText_def)
  qed
  have c: "rawHeader (preambleSection t) = [] \<and> sectionContent (preambleSection t) = t
      \<and> fullText (preambleSection t) = t
      \<and> reassemble (preambleSection t) = (if t = [] then [] else nl @ t)"
    by (simp add: preambleSection_def reassemble_def)
  from a b c show ?thesis
    using join_split_nl sectionSpans_lines parse_titled parse_no_header by blast
qed

lemmas span_eval = isHeaderLine_def reassemble_def sectionOfSpan_def openSection_def
  firstHeaderNotBefore_def preambleText_def spanText_def sectionTexts_def hasOneSection_def

theorem section_round_trip_witness:
  \<open>snd (sectionSpans (split_nl (S ''# A\<newline>x\<newline># B''))) = [[S ''# A'', S ''x''], [S ''# B'']]
   \<and> map reassemble (filter (\<lambda>s. rawHeader s \<noteq> []) (parseMarkdownSections (S ''# A\<newline>x\<newline># B'')))
       = [S ''# A\<newline>x'', S ''# B'']
   \<and> snd (sectionSpans (split_nl (S ''no header''))) = []
   \<and> parseMarkdownSections (S ''no header'') = [preambleSection (S ''no header'')]
   \<and> snd (sectionSpans (split_nl (S '' intro\<newline># A''))) \<noteq> []
   \<and> firstHeaderNotBefore (S '' intro\<newline># A'')
   \<and> parseMarkdownSections (S '' intro\<newline># A'') = [preambleSection (S ''intro''), sectionOfSpan [S ''# A'']]\<close>
proof -
  have a: \<open>snd (sectionSpans (split_nl (S ''# A\<newline>x\<newline># B''))) = [[S ''# A'', S ''x''], [S ''# B'']]\<close>
    by (simp add: md_eval span_eval)
  have b: \<open>map reassemble (map sectionOfSpan [[S ''# A'', S ''x''], [S ''# B'']]) = [S ''# A\<newline>x'', S ''# B'']\<close>
    by (simp add: md_eval span_eval)
  have c: \<open>snd (sectionSpans (split_nl (S ''no header''))) = []\<close>
    by (simp add: md_eval span_eval)
  have f: \<open>sectionSpans (split_nl (S '' intro\<newline># A'')) = ([S '' intro''], [[S ''# A'']])\<close>
    by (simp add: md_eval span_eval)
  have g: \<open>firstHeaderNotBefore (S '' intro\<newline># A'')\<close>
    unfolding firstHeaderNotBefore_def f by (simp add: startsWith_def)
  have h: \<open>preambleText (S '' intro\<newline># A'') = S ''intro''\<close>
    unfolding preambleText_def f by (simp add: trim_def isWhiteSpace_def)
  from section_round_trip [of \<open>S ''# A\<newline>x\<newline># B''\<close>] a b
  have d: \<open>map reassemble (filter (\<lambda>s. rawHeader s \<noteq> []) (parseMarkdownSections (S ''# A\<newline>x\<newline># B'')))
       = [S ''# A\<newline>x'', S ''# B'']\<close>
    by simp
  from section_round_trip [of \<open>S ''no header''\<close>] c
  have e: \<open>parseMarkdownSections (S ''no header'') = [preambleSection (S ''no header'')]\<close>
    by blast
  from section_round_trip [of \<open>S '' intro\<newline># A''\<close>] f g h
  have i: \<open>parseMarkdownSections (S '' intro\<newline># A'') = [preambleSection (S ''intro''), sectionOfSpan [S ''# A'']]\<close>
    by simp
  from a c d e f g i show ?thesis by simp
qed

text \<open>
  Claim C8 as stated fails for a section whose body is one empty line: the span is the
  header line and a newline, the reassembled text is the header line alone. It fails for
  the preamble of the second document: the text before the header line is \<open>intro\<close> after a
  space, the body of the section is \<open>intro\<close>, and the empty raw header line, a newline and
  the body give yet another text. In the third document the text of the first header line
  occurs in the line before it, and the preamble section holds only what precedes that
  occurrence.
\<close>

theorem section_round_trip_counterexample:
  \<open>map reassemble (parseMarkdownSections (S ''# A\<newline>\<newline># B'')) = [S ''# A'', S ''# B'']
   \<and> map (join nl) (snd (sectionSpans (split_nl (S ''# A\<newline>\<newline># B'')))) = [S ''# A\<newline>'', S ''# B'']
   \<and> map reassemble (parseMarkdownSections (S '' intro\<newline># A'')) = [S ''\<newline>intro'', S ''# A'']
   \<and> join nl (fst (sectionSpans (split_nl (S '' intro\<newline># A'')))) = S '' intro''
   \<and> map sectionContent (parseMarkdownSections (S ''a # A\<newline># A\<newline>b'')) = [S ''a'', S ''b'']
   \<and> join nl (fst (sectionSpans (split_nl (S ''a # A\<newline># A\<newline>b'')))) = S ''a # A''
   \<and> \<not> firstHeaderNotBefore (S ''a # A\<newline># A\<newline>b'')\<close>
  by (simp add: md_eval span_eval)

section \<open>The section merge: a document merged with itself\<close>

text \<open>
  Claim C4, as amended. For a document that is not blank and whose sections have pairwise
  different keys, merging it with itself gives the texts of its sections joined by blank
  lines, trimmed, with one newline at the end; in \<open>preserved\<close> the header of every header
  line, in order, but for a header that is the sentinel \<open>__preamble__\<close> itself; and nothing
  in \<open>added\<close>. The document is the lines before its first header line and its spans,
  joined by single newlines. When the text of the first header line does not occur before
  that line, the texts of the sections are those of the spans, after the text before the
  first header line, trimmed, when it is not blank. For a document of one section the
  content is the document without the white space at its ends, with one newline at the
  end.
\<close>

theorem mergeMarkdown_self:
  assumes "\<not> isBlank X" and "distinct (map sectionKey (parseMarkdownSections X))"
  shows "mergeMarkdown X X =
           \<lparr>content = trim (join (nl @ nl) (map fullText (parseMarkdownSections X))) @ nl,
            preserved = reportedHeaders (parseMarkdownSections X),
            added = []\<rparr>
     \<and> reportedHeaders (parseMarkdownSections X) =
         filter (\<lambda>h. h \<noteq> S ''__preamble__'')
           (map (\<lambda>span. header (sectionOfSpan span)) (snd (sectionSpans (split_nl X))))
     \<and> X = join nl (fst (sectionSpans (split_nl X)) @ concat (snd (sectionSpans (split_nl X))))
     \<and> (firstHeaderNotBefore X \<longrightarrow> map fullText (parseMarkdownSections X) = sectionTexts X)
     \<and> (hasOneSection X \<longrightarrow> content (mergeMarkdown X X) = trim X @ nl)"
proof -
  have a: "mergeMarkdown X X =
           \<lparr>content = trim (join (nl @ nl) (map fullText (parseMarkdownSections X))) @ nl,
            preserved = reportedHeaders (parseMarkdownSections X),
            added = []\<rparr>"
    using assms(1)
    by (simp add: mergeMarkdown_def mergeSections_closed self_merge_texts [OF assms(2)]
        self_merge_preserved [OF assms(2)] self_merge_added self_merge_unmatched)
  have b: "X = join nl (fst (sectionSpans (split_nl X)) @ concat (snd (sectionSpans (split_nl X))))"
    by (simp add: sectionSpans_lines join_split_nl)
  have c: "hasOneSection X \<longrightarrow> content (mergeMarkdown X X) = trim X @ nl"
    unfolding a by (simp add: one_section_texts)
  from a b c show ?thesis
    using reportedHeaders_spans [of X] parse_sectionTexts [of X] not_before_found [of X] by blast
qed

theorem mergeMarkdown_self_witness:
  \<open>\<not> isBlank (S ''# A\<newline>x\<newline>\<newline># B\<newline>y\<newline>'')
   \<and> distinct (map sectionKey (parseMarkdownSections (S ''# A\<newline>x\<newline>\<newline># B\<newline>y\<newline>'')))
   \<and> firstHeaderNotBefore (S ''# A\<newline>x\<newline>\<newline># B\<newline>y\<newline>'')
   \<and> sectionTexts (S ''# A\<newline>x\<newline>\<newline># B\<newline>y\<newline>'') = [S ''# A\<newline>x\<newline>'', S ''# B\<newline>y\<newline>'']
   \<and> mergeMarkdown (S ''# A\<newline>x\<newline>\<newline># B\<newline>y\<newline>'') (S ''# A\<newline>x\<newline>\<newline># B\<newline>y\<newline>'') =
       \<lparr>content = S ''# A\<newline>x\<newline>\<newline>\<newline># B\<newline>y\<newline>'', preserved = [S ''A'', S ''B''], added = []\<rparr>
   \<and> \<not> isBlank (S ''\<newline># A\<newline>x\<newline>'')
   \<and> distinct (map sectionKey (parseMarkdownSections (S ''\<newline># A\<newline>x\<newline>'')))
   \<and> hasOneSection (S ''\<newline># A\<newline>x\<newline>'')
   \<and> content (mergeMarkdown (S ''\<newline># A\<newline>x\<newline>'') (S ''\<newline># A\<newline>x\<newline>'')) = S ''# A\<newline>x\<newline>''\<close>
proof -
  have a: \<open>\<not> isBlank (S ''# A\<newline>x\<newline>\<newline># B\<newline>y\<newline>'')\<close>
    by (simp add: isBlank_def trim_def isWhiteSpace_def)
  have b: \<open>distinct (map sectionKey (parseMarkdownSections (S ''# A\<newline>x\<newline>\<newline># B\<newline>y\<newline>'')))\<close>
    by (simp add: md_eval spec_eval)
  have sp: \<open>sectionSpans (split_nl (S ''# A\<newline>x\<newline>\<newline># B\<newline>y\<newline>''))
      = ([], [[S ''# A'', S ''x'', []], [S ''# B'', S ''y'', []]])\<close>
    by (simp add: md_eval span_eval)
  have f: \<open>firstHeaderNotBefore (S ''# A\<newline>x\<newline>\<newline># B\<newline>y\<newline>'')\<close>
    unfolding firstHeaderNotBefore_def sp by simp
  have t: \<open>sectionTexts (S ''# A\<newline>x\<newline>\<newline># B\<newline>y\<newline>'') = [S ''# A\<newline>x\<newline>'', S ''# B\<newline>y\<newline>'']\<close>
    unfolding sectionTexts_def preambleText_def sp by (simp add: spanText_def nl_def trim_def)
  have c: \<open>trim (join (nl @ nl) [S ''# A\<newline>x\<newline>'', S ''# B\<newline>y\<newline>'']) @ nl = S ''# A\<newline>x\<newline>\<newline>\<newline># B\<newline>y\<newline>''\<close>
    by (simp add: nl_def trim_def isWhiteSpace_def)
  have d: \<open>reportedHeaders (parseMarkdownSections (S ''# A\<newline>x\<newline>\<newline># B\<newline>y\<newline>'')) = [S ''A'', S ''B'']\<close>
    by (simp add: md_eval)
  have a2: \<open>\<not> isBlank (S ''\<newline># A\<newline>x\<newline>'')\<close>
    by (simp add: isBlank_def trim_def isWhiteSpace_def)
  have b2: \<open>distinct (map sectionKey (parseMarkdownSections (S ''\<newline># A\<newline>x\<newline>'')))\<close>
    by (simp add: md_eval spec_eval)
  have sp2: \<open>sectionSpans (split_nl (S ''\<newline># A\<newline>x\<newline>'')) = ([[]], [[S ''# A'', S ''x'', []]])\<close>
    by (simp add: md_eval span_eval)
  have o2: \<open>hasOneSection (S ''\<newline># A\<newline>x\<newline>'')\<close>
    unfolding hasOneSection_def preambleText_def sp2 by (simp add: trim_def)
  have t2: \<open>trim (S ''\<newline># A\<newline>x\<newline>'') @ nl = S ''# A\<newline>x\<newline>''\<close>
    by (simp add: nl_def trim_def isWhiteSpace_def)
  note m = mergeMarkdown_self [OF a b]
  from m have m1: \<open>mergeMarkdown (S ''# A\<newline>x\<newline>\<newline># B\<newline>y\<newline>'') (S ''# A\<newline>x\<newline>\<newline># B\<newline>y\<newline>'') =
       \<lparr>content = trim (join (nl @ nl) (map fullText (parseMarkdownSections (S ''# A\<newline>x\<newline>\<newline># B\<newline>y\<newline>'')))) @ nl,
        preserved = reportedHeaders (parseMarkdownSections (S ''# A\<newline>x\<newline>\<newline># B\<newline>y\<newline>'')),
        added = []\<rparr>\<close>
    by (rule conjunct1)
  from m f have m4: \<open>map fullText (parseMarkdownSections (S ''# A\<newline>x\<newline>\<newline># B\<newline>y\<newline>''))
      = sectionTexts (S ''# A\<newline>x\<newline>\<newline># B\<newline>y\<newline>'')\<close>
    by blast
  have r1: \<open>mergeMarkdown (S ''# A\<newline>x\<newline>\<newline># B\<newline>y\<newline>'') (S ''# A\<newline>x\<newline>\<newline># B\<newline>y\<newline>'') =
       \<lparr>content = S ''# A\<newline>x\<newline>\<newline>\<newline># B\<newline>y\<newline>'', preserved = [S ''A'', S ''B''], added = []\<rparr>\<close>
    unfolding m1 m4 t c d ..
  from mergeMarkdown_self [OF a2 b2] o2
  have \<open>content (mergeMarkdown (S ''\<newline># A\<newline>x\<newline>'') (S ''\<newline># A\<newline>x\<newline>'')) = trim (S ''\<newline># A\<newline>x\<newline>'') @ nl\<close>
    by blast
  then have r2: \<open>content (mergeMarkdown (S ''\<newline># A\<newline>x\<newline>'') (S ''\<newline># A\<newline>x\<newline>'')) = S ''# A\<newline>x\<newline>''\<close>
    unfolding t2 .
  from a b f t r1 a2 b2 o2 r2 show ?thesis by (intro conjI)
qed

text \<open>
  Claim C4 as stated fails for a document whose sections follow each other without a blank
  line: the merge puts one between them, so the content differs from the document by more
  than white space at its ends. It fails too where two headers have the same key: the
  header \<open>Setup!\<close> of the document is not in \<open>preserved\<close>.
\<close>

theorem mergeMarkdown_self_counterexample:
  \<open>mergeMarkdown (S ''# A\<newline>x\<newline># B\<newline>y'') (S ''# A\<newline>x\<newline># B\<newline>y'') =
      \<lparr>content = S ''# A\<newline>x\<newline>\<newline># B\<newline>y\<newline>'', preserved = [S ''A'', S ''B''], added = []\<rparr>
   \<and> trim (S ''# A\<newline>x\<newline>\<newline># B\<newline>y\<newline>'') \<noteq> trim (S ''# A\<newline>x\<newline># B\<newline>y'')
   \<and> preserved (mergeMarkdown (S ''# Setup!\<newline>a\<newline># setup\<newline>b'') (S ''# Setup!\<newline>a\<newline># setup\<newline>b''))
       = [S ''setup'', S ''setup'']\<close>
  by (simp add: md_eval)

section \<open>The tree merges: key order\<close>

declare deepMergeJson.simps [simp del]

lemma proto_in_names: "S ''__proto__'' \<in> set Object_prototype_names"
  by (simp add: Object_prototype_names_def)

lemma js_set_new:
  assumes "ordinaryKey k" and "k \<notin> fst ` set R"
  shows "js_set R k v = R @ [(k, v)]"
proof -
  from assms(1) have "k \<noteq> S ''__proto__''" using proto_in_names by (auto simp: ordinaryKey_def)
  with assms show ?thesis by (simp add: js_set_def defineNew_def ordinaryKey_def)
qed

lemma js_set_old:
  assumes "k \<in> fst ` set R"
  shows "js_set R k v = map (\<lambda>p. if fst p = k then (k, v) else p) R"
  using assms by (simp add: js_set_def createDataProperty_def)

lemma js_in_ordinary:
  assumes "ordinaryKey k"
  shows "js_in k (JObj qs) \<longleftrightarrow> k \<in> fst ` set qs"
  using assms by (simp add: js_in_def Object_keys_def ordinaryKey_def)

lemma js_get_own: "map_of ps k = Some v \<Longrightarrow> js_get (JObj ps) k = v"
  by (simp add: js_get_def)

lemma ordinaryMergeProps_member:
  "ordinaryMergeProps ps qs \<Longrightarrow> (k, v) \<in> set ps \<Longrightarrow> map_of qs k = Some w \<Longrightarrow> ordinaryMerge v w"
  by (induction ps) auto

lemma ordinaryKeys_key:
  "ordinaryKeys ps \<Longrightarrow> k \<in> fst ` set ps \<Longrightarrow> ordinaryKey k"
  by (auto simp: ordinaryKeys_def list_all_iff)

lemma map_of_key:
  "k \<in> fst ` set ps \<Longrightarrow> \<exists>v. map_of ps k = Some v \<and> (k, v) \<in> set ps"
  by (induction ps) auto

lemma plain_ordinary:
  "isPlainObject v \<Longrightarrow> isPlainObject w \<Longrightarrow> ordinaryMerge v w \<Longrightarrow> \<exists>ps qs. v = JObj ps \<and> w = JObj qs"
  by (cases v; cases w) auto

lemma spec_mergedValue_scalar:
  assumes "\<not> (isPlainObject v \<and> isPlainObject w)"
  shows "spec_mergedValue v w = v"
proof (cases v)
  case (JObj ps)
  with assms(1) have "\<not> isPlainObject w" by simp
  with JObj show ?thesis by (cases w) simp_all
qed simp_all

lemma spec_mergedProps_keys:
  assumes "distinct (map fst ps)"
  shows "spec_mergedProps ps qs = map (\<lambda>k. (k, mergedAt ps qs k)) (map fst ps)"
  using assms
proof (induction ps)
  case Nil
  then show ?case by simp
next
  case (Cons p ps)
  have "map (\<lambda>k. (k, mergedAt (p # ps) qs k)) (map fst ps) = map (\<lambda>k. (k, mergedAt ps qs k)) (map fst ps)"
  proof (rule map_cong [OF refl])
    fix k assume "k \<in> set (map fst ps)"
    with Cons.prems have "k \<noteq> fst p" by force
    then show "(k, mergedAt (p # ps) qs k) = (k, mergedAt ps qs k)"
      by (simp add: mergedAt_def split: option.splits)
  qed
  moreover have "mergedAt (p # ps) qs (fst p) =
      (case map_of qs (fst p) of None \<Rightarrow> snd p | Some w \<Rightarrow> spec_mergedValue (snd p) w)"
    by (simp add: mergedAt_def split: option.splits)
  ultimately show ?case using Cons by simp
qed

lemma filter_new_keys:
  assumes "distinct (map fst qs)"
  shows "map (\<lambda>k. (k, the (map_of qs k))) (filter (\<lambda>k. k \<notin> A) (map fst qs)) = filter (\<lambda>q. fst q \<notin> A) qs"
  using assms
proof (induction qs)
  case Nil
  then show ?case by simp
next
  case (Cons q qs)
  have "map (\<lambda>k. (k, the (map_of (q # qs) k))) (filter (\<lambda>k. k \<notin> A) (map fst qs))
      = map (\<lambda>k. (k, the (map_of qs k))) (filter (\<lambda>k. k \<notin> A) (map fst qs))"
  proof (rule map_cong [OF refl])
    fix k assume "k \<in> set (filter (\<lambda>k. k \<notin> A) (map fst qs))"
    with Cons.prems have "k \<noteq> fst q" by force
    then show "(k, the (map_of (q # qs) k)) = (k, the (map_of qs k))" by simp
  qed
  with Cons show ?case by simp
qed

lemma dmj_new_keys_closed:
  assumes "ordinaryKeys qs" and "set ks \<subseteq> fst ` set qs" and "distinct ks"
    and "\<forall>k \<in> set ks. k \<notin> fst ` set ps \<longrightarrow> k \<notin> fst ` set R"
  shows "fst (dmj_new_keys (JObj ps) (JObj qs) path ks R ad) =
           R @ map (\<lambda>k. (k, the (map_of qs k))) (filter (\<lambda>k. k \<notin> fst ` set ps) ks)"
  using assms(2-4)
proof (induction ks arbitrary: R ad)
  case Nil
  then show ?case by simp
next
  case (Cons k ks)
  from Cons.prems(1) have kq: "k \<in> fst ` set qs" by simp
  with assms(1) have ok: "ordinaryKey k" by (rule ordinaryKeys_key)
  from map_of_key [OF kq] obtain w where w: "map_of qs k = Some w" by blast
  show ?case
  proof (cases "k \<in> fst ` set ps")
    case True
    then have "js_in k (JObj ps)" using ok by (simp add: js_in_ordinary)
    moreover have "fst (dmj_new_keys (JObj ps) (JObj qs) path ks R ad) =
           R @ map (\<lambda>k. (k, the (map_of qs k))) (filter (\<lambda>k. k \<notin> fst ` set ps) ks)"
      using Cons.prems by (intro Cons.IH) auto
    ultimately show ?thesis using True by simp
  next
    case False
    then have nin: "\<not> js_in k (JObj ps)" using ok by (simp add: js_in_ordinary)
    from False Cons.prems(3) have "k \<notin> fst ` set R" by simp
    then have set: "js_set R k (js_get (JObj qs) k) = R @ [(k, w)]"
      using ok w by (simp add: js_set_new js_get_own)
    have "fst (dmj_new_keys (JObj ps) (JObj qs) path ks (R @ [(k, w)]) (ad @ [fullPathOf path k])) =
           (R @ [(k, w)]) @ map (\<lambda>k. (k, the (map_of qs k))) (filter (\<lambda>k. k \<notin> fst ` set ps) ks)"
      using Cons.prems by (intro Cons.IH) auto
    with nin set False w show ?thesis by simp
  qed
qed

lemma deepMergeJson_closed:
  shows "existing = JObj ps \<Longrightarrow> generated = JObj qs \<Longrightarrow> ordinaryMerge existing generated
      \<Longrightarrow> fst (deepMergeJson existing generated path pr ad) = spec_merge ps qs"
    and "existing = JObj ps \<Longrightarrow> generated = JObj qs \<Longrightarrow> ordinaryMerge existing generated
      \<Longrightarrow> set ks \<subseteq> fst ` set ps \<Longrightarrow> distinct ks \<Longrightarrow> \<forall>k \<in> set ks. k \<notin> fst ` set R
      \<Longrightarrow> fst (dmj_loop existing generated path ks R pr ad) = R @ map (\<lambda>k. (k, mergedAt ps qs k)) ks"
proof (induction existing generated path pr ad and existing generated path ks R pr ad
    arbitrary: ps qs and ps qs rule: deepMergeJson_dmj_loop.induct)
  case (1 existing generated path preserved added)
  from 1(2-4) have ops: "ordinaryKeys ps" and oqs: "ordinaryKeys qs" by simp_all
  then have dps: "distinct (map fst ps)" and dqs: "distinct (map fst qs)"
    by (simp_all add: ordinaryKeys_def)
  have keys: "Object_keys existing = map fst ps" "Object_keys generated = map fst qs"
    using 1(2,3) by (simp_all add: Object_keys_def)
  have loop: "fst (dmj_loop existing generated path (map fst ps) [] preserved added) = spec_mergedProps ps qs"
    using 1(1) [OF 1(2) 1(3) 1(4)] dps keys
    by (simp add: spec_mergedProps_keys)
  obtain result pr' ad' where l: "dmj_loop existing generated path (map fst ps) [] preserved added = (result, pr', ad')"
    by (cases "dmj_loop existing generated path (map fst ps) [] preserved added") auto
  with loop have r: "result = spec_mergedProps ps qs" by simp
  have rk: "fst ` set result = fst ` set ps"
    unfolding r spec_mergedProps_keys [OF dps] by (simp add: image_image)
  have "fst (dmj_new_keys (JObj ps) (JObj qs) path (map fst qs) result ad') =
      result @ map (\<lambda>k. (k, the (map_of qs k))) (filter (\<lambda>k. k \<notin> fst ` set ps) (map fst qs))"
    using oqs dqs rk by (intro dmj_new_keys_closed) auto
  then have n: "fst (dmj_new_keys existing generated path (map fst qs) result ad') = spec_merge ps qs"
    using 1(2,3) r dqs by (simp add: filter_new_keys spec_merge_def)
  obtain result' ad'' where "dmj_new_keys existing generated path (map fst qs) result ad' = (result', ad'')"
    by (cases "dmj_new_keys existing generated path (map fst qs) result ad'") auto
  with n l keys show ?case by (simp add: deepMergeJson.simps)
next
  case (2 existing generated path result preserved added)
  then show ?case by simp
next
  case (3 existing generated path key keys result preserved added)
  note e = \<open>existing = JObj ps\<close> and g = \<open>generated = JObj qs\<close>
  note om = \<open>ordinaryMerge existing generated\<close>
  from e g om have ops: "ordinaryKeys ps" and oqs: "ordinaryKeys qs" and omp: "ordinaryMergeProps ps qs"
    by simp_all
  from \<open>set (key # keys) \<subseteq> fst ` set ps\<close> have kin: "key \<in> fst ` set ps" and sub: "set keys \<subseteq> fst ` set ps"
    by simp_all
  from \<open>distinct (key # keys)\<close> have knk: "key \<notin> set keys" and dk: "distinct keys" by simp_all
  from \<open>\<forall>k\<in>set (key # keys). k \<notin> fst ` set result\<close>
  have knr: "key \<notin> fst ` set result" and rest: "\<forall>k\<in>set keys. k \<notin> fst ` set result" by simp_all
  from map_of_key [OF kin] obtain v where v: "map_of ps key = Some v" "(key, v) \<in> set ps" by blast
  from ops kin have ok: "ordinaryKey key" by (rule ordinaryKeys_key)
  have gv: "js_get existing key = v" using e v(1) by (simp add: js_get_own)
  have fresh: "\<And>x. \<forall>k\<in>set keys. k \<notin> fst ` set (result @ [(key, x)])"
    using rest knk by auto
  show ?case
  proof (cases "js_in key generated")
    case False
    then have "key \<notin> fst ` set qs" using g ok by (simp add: js_in_ordinary)
    then have "map_of qs key = None" by (simp add: map_of_eq_None_iff)
    then have m: "mergedAt ps qs key = v" using v(1) by (simp add: mergedAt_def)
    have "fst (dmj_loop existing generated path keys (js_set result key (js_get existing key))
          (preserved @ [fullPathOf path key]) added)
        = js_set result key (js_get existing key) @ map (\<lambda>k. (k, mergedAt ps qs k)) keys"
      using False e g om sub dk fresh [of v] gv ok knr
      by (intro 3(1)) (simp_all add: js_set_new)
    with False m gv ok knr show ?thesis by (simp add: js_set_new)
  next
    case True
    then have "key \<in> fst ` set qs" using g ok by (simp add: js_in_ordinary)
    from map_of_key [OF this] obtain w where w: "map_of qs key = Some w" "(key, w) \<in> set qs" by blast
    from omp v(2) w(1) have ovw: "ordinaryMerge v w" by (rule ordinaryMergeProps_member)
    have gw: "js_get generated key = w" using g w(1) by (simp add: js_get_own)
    have m: "mergedAt ps qs key = spec_mergedValue v w" using v(1) w(1) by (simp add: mergedAt_def)
    show ?thesis
    proof (cases "isPlainObject v \<and> isPlainObject w")
      case both: True
      then obtain ps' qs' where v': "v = JObj ps'" and w': "w = JObj qs'"
        using ovw plain_ordinary by blast
      obtain x pr' ad' where d: "deepMergeJson v w (fullPathOf path key) preserved added = (x, pr', ad')"
        by (cases "deepMergeJson v w (fullPathOf path key) preserved added") auto
      have "fst (deepMergeJson (js_get existing key) (js_get generated key) (fullPathOf path key) preserved added)
          = spec_merge ps' qs'"
        using True both gv gw v' w' ovw by (intro 3(2)) simp_all
      with d gv gw have x: "x = spec_merge ps' qs'" by simp
      then have mx: "mergedAt ps qs key = JObj x" using m v' w' by (simp add: spec_merge_def)
      have "fst (dmj_loop existing generated path keys (js_set result key (JObj x)) pr' ad')
          = js_set result key (JObj x) @ map (\<lambda>k. (k, mergedAt ps qs k)) keys"
        using True both gv gw d e g om sub dk fresh [of "JObj x"] ok knr
        by (intro 3(3) [of x "(pr', ad')" pr' ad']) (simp_all add: js_set_new)
      with True both gv gw d mx ok knr show ?thesis by (simp add: js_set_new)
    next
      case notboth: False
      then have mv: "mergedAt ps qs key = v" using m by (simp add: spec_mergedValue_scalar)
      have "fst (dmj_loop existing generated path keys (js_set result key (js_get existing key))
            (preserved @ [fullPathOf path key]) added)
          = js_set result key (js_get existing key) @ map (\<lambda>k. (k, mergedAt ps qs k)) keys"
        using True notboth gv gw e g om sub dk fresh [of v] ok knr
        by (intro 3(4)) (simp_all add: js_set_new)
      with True notboth gv gw mv ok knr show ?thesis by (auto simp: js_set_new)
    qed
  qed
qed

declare deepMergePreserveExisting.simps [simp del]

lemma createDataProperty_new:
  assumes "\<not> isArrayIndex k" and "k \<notin> fst ` set R"
  shows "createDataProperty R k v = R @ [(k, v)]"
  using assms by (simp add: createDataProperty_def defineNew_def)

lemma spread_ordinary:
  assumes "ordinaryKeys ps"
  shows "spread (JObj ps) = ps"
proof -
  have "\<And>R. list_all ordinaryKey (map fst ps) \<Longrightarrow> distinct (map fst (R @ ps)) \<Longrightarrow>
      foldl (\<lambda>ps p. createDataProperty ps (fst p) (snd p)) R ps = R @ ps"
  proof (induction ps)
    case Nil
    then show ?case by simp
  next
    case (Cons p ps)
    from Cons.prems have "\<not> isArrayIndex (fst p)" and "fst p \<notin> fst ` set R"
      by (auto simp: ordinaryKey_def)
    then have "createDataProperty R (fst p) (snd p) = R @ [p]"
      by (simp add: createDataProperty_new)
    moreover have "foldl (\<lambda>ps p. createDataProperty ps (fst p) (snd p)) (R @ [p]) ps = (R @ [p]) @ ps"
      using Cons.prems by (intro Cons.IH) auto
    ultimately show ?case by simp
  qed
  from this [of "[]"] assms show ?thesis by (simp add: spread_def ordinaryKeys_def)
qed

lemma update_keys:
  "fst ` set (map (\<lambda>p. if fst p = k then (k, v) else p) R) = fst ` set R"
  by (induction R) auto

lemma map_of_distinct:
  "distinct (map fst ps) \<Longrightarrow> p \<in> set ps \<Longrightarrow> map_of ps (fst p) = Some (snd p)"
  by (induction ps) (auto simp: rev_image_eqI)

lemma foldl_dmpe_step_prefix:
  assumes "distinct (map fst qs)" and "qs = qs1 @ qs2"
  shows "foldl (dmpe_step ps qs) ps (map fst qs1) =
           map (\<lambda>p. if fst p \<in> fst ` set qs1 then (fst p, mergedAt ps qs (fst p)) else p) ps
           @ filter (\<lambda>q. fst q \<notin> fst ` set ps) qs1"
  using assms(2)
proof (induction qs1 arbitrary: qs2 rule: rev_induct)
  case Nil
  then show ?case by simp
next
  case (snoc x xs)
  let ?A = "map (\<lambda>p. if fst p \<in> fst ` set xs then (fst p, mergedAt ps qs (fst p)) else p) ps"
  let ?B = "filter (\<lambda>q. fst q \<notin> fst ` set ps) xs"
  from snoc.prems have q: "qs = xs @ (x # qs2)" by simp
  from snoc.IH [OF q] have ih: "foldl (dmpe_step ps qs) ps (map fst xs) = ?A @ ?B" .
  from q assms(1) have xin: "x \<in> set qs" by simp
  from map_of_distinct [OF assms(1) xin] have mx: "the (map_of qs (fst x)) = snd x" by simp
  show ?case
  proof (cases "fst x \<in> fst ` set ps")
    case True
    have a: "map (\<lambda>p. if fst p = fst x then (fst x, mergedAt ps qs (fst x)) else p) ?A
        = map (\<lambda>p. if fst p \<in> fst ` set (xs @ [x]) then (fst p, mergedAt ps qs (fst p)) else p) ps"
      by (induction ps) auto
    have b: "map (\<lambda>p. if fst p = fst x then (fst x, mergedAt ps qs (fst x)) else p) ?B = ?B"
      using True by (induction xs) auto
    have "foldl (dmpe_step ps qs) ps (map fst (xs @ [x])) = dmpe_step ps qs (?A @ ?B) (fst x)"
      using ih by simp
    also have "\<dots> = map (\<lambda>p. if fst p \<in> fst ` set (xs @ [x]) then (fst p, mergedAt ps qs (fst p)) else p) ps @ ?B"
      using True a b by (simp add: dmpe_step_def)
    finally show ?thesis using True by simp
  next
    case False
    have a: "?A = map (\<lambda>p. if fst p \<in> fst ` set (xs @ [x]) then (fst p, mergedAt ps qs (fst p)) else p) ps"
    proof (rule map_cong [OF refl])
      fix p assume "p \<in> set ps"
      then have "fst p \<in> fst ` set ps" by (rule imageI)
      with False have "fst p \<noteq> fst x" by metis
      then show "(if fst p \<in> fst ` set xs then (fst p, mergedAt ps qs (fst p)) else p)
          = (if fst p \<in> fst ` set (xs @ [x]) then (fst p, mergedAt ps qs (fst p)) else p)"
        by simp
    qed
    have "foldl (dmpe_step ps qs) ps (map fst (xs @ [x])) = dmpe_step ps qs (?A @ ?B) (fst x)"
      using ih by simp
    also have "\<dots> = ?A @ ?B @ [x]"
      using False mx by (simp add: dmpe_step_def)
    finally show ?thesis using False a by simp
  qed
qed

lemma foldl_dmpe_step:
  assumes "distinct (map fst ps)" and "distinct (map fst qs)"
  shows "foldl (dmpe_step ps qs) ps (map fst qs) = spec_merge ps qs"
proof -
  have "map (\<lambda>p. if fst p \<in> fst ` set qs then (fst p, mergedAt ps qs (fst p)) else p) ps
      = map (\<lambda>p. (fst p, mergedAt ps qs (fst p))) ps"
  proof (rule map_cong [OF refl])
    fix p assume p: "p \<in> set ps"
    show "(if fst p \<in> fst ` set qs then (fst p, mergedAt ps qs (fst p)) else p) = (fst p, mergedAt ps qs (fst p))"
    proof (cases "fst p \<in> fst ` set qs")
      case True
      then show ?thesis by simp
    next
      case False
      then have "map_of qs (fst p) = None" by (simp add: map_of_eq_None_iff)
      with map_of_distinct [OF assms(1) p] have "mergedAt ps qs (fst p) = snd p"
        by (simp add: mergedAt_def)
      with False show ?thesis by simp
    qed
  qed
  also have "\<dots> = spec_mergedProps ps qs"
    by (simp add: spec_mergedProps_keys [OF assms(1)] comp_def)
  finally show ?thesis
    using foldl_dmpe_step_prefix [OF assms(2), of qs "[]" ps] by (simp add: spec_merge_def)
qed

lemma deepMergePreserveExisting_closed:
  shows "existing = JObj ps \<Longrightarrow> generated = JObj qs \<Longrightarrow> ordinaryMerge existing generated
      \<Longrightarrow> fst (deepMergePreserveExisting existing generated path pr ad) = spec_merge ps qs"
    and "existing = JObj ps \<Longrightarrow> generated = JObj qs \<Longrightarrow> ordinaryMerge existing generated
      \<Longrightarrow> set ks \<subseteq> fst ` set qs \<Longrightarrow> distinct ks \<Longrightarrow> fst ` set ps \<subseteq> fst ` set R
      \<Longrightarrow> \<forall>k \<in> set ks. k \<notin> fst ` set ps \<longrightarrow> k \<notin> fst ` set R
      \<Longrightarrow> fst (dmpe_loop existing generated path ks R pr ad) = foldl (dmpe_step ps qs) R ks"
proof (induction existing generated path pr ad and existing generated path ks R pr ad
    arbitrary: ps qs and ps qs rule: deepMergePreserveExisting_dmpe_loop.induct)
  case (1 existing generated path preserved added)
  from 1(2-4) have ops: "ordinaryKeys ps" and oqs: "ordinaryKeys qs" by simp_all
  then have dps: "distinct (map fst ps)" and dqs: "distinct (map fst qs)"
    by (simp_all add: ordinaryKeys_def)
  have keys: "Object_keys generated = map fst qs" using 1(3) by (simp add: Object_keys_def)
  have sp: "spread existing = ps" using 1(2) ops by (simp add: spread_ordinary)
  have "fst (dmpe_loop existing generated path (Object_keys generated) (spread existing) preserved added)
      = foldl (dmpe_step ps qs) (spread existing) (Object_keys generated)"
    using 1(2-4) keys sp dqs by (intro 1(1)) auto
  then have "fst (dmpe_loop existing generated path (map fst qs) ps preserved added) = spec_merge ps qs"
    using keys sp dps dqs by (simp add: foldl_dmpe_step)
  then show ?case
    using keys sp by (auto simp: deepMergePreserveExisting.simps split: prod.splits)
next
  case (2 existing generated path result preserved added)
  then show ?case by simp
next
  case (3 existing generated path key keys result preserved added)
  note e = \<open>existing = JObj ps\<close> and g = \<open>generated = JObj qs\<close>
  note om = \<open>ordinaryMerge existing generated\<close>
  from e g om have ops: "ordinaryKeys ps" and oqs: "ordinaryKeys qs" and omp: "ordinaryMergeProps ps qs"
    by simp_all
  from \<open>set (key # keys) \<subseteq> fst ` set qs\<close> have kin: "key \<in> fst ` set qs" and sub: "set keys \<subseteq> fst ` set qs"
    by simp_all
  from \<open>distinct (key # keys)\<close> have knk: "key \<notin> set keys" and dk: "distinct keys" by simp_all
  note pr = \<open>fst ` set ps \<subseteq> fst ` set result\<close>
  from \<open>\<forall>k\<in>set (key # keys). k \<notin> fst ` set ps \<longrightarrow> k \<notin> fst ` set result\<close>
  have knr: "key \<notin> fst ` set ps \<longrightarrow> key \<notin> fst ` set result"
    and rest: "\<forall>k\<in>set keys. k \<notin> fst ` set ps \<longrightarrow> k \<notin> fst ` set result" by simp_all
  from map_of_key [OF kin] obtain w where w: "map_of qs key = Some w" "(key, w) \<in> set qs" by blast
  from oqs kin have ok: "ordinaryKey key" by (rule ordinaryKeys_key)
  have gw: "js_get generated key = w" using g w(1) by (simp add: js_get_own)
  show ?case
  proof (cases "js_in key existing")
    case False
    then have kp: "key \<notin> fst ` set ps" using e ok by (simp add: js_in_ordinary)
    with knr have kr: "key \<notin> fst ` set result" by simp
    have set: "js_set result key (js_get generated key) = result @ [(key, w)]"
      using ok kr gw by (simp add: js_set_new)
    have step: "dmpe_step ps qs result key = result @ [(key, w)]"
      using kp w(1) by (simp add: dmpe_step_def)
    have "fst (dmpe_loop existing generated path keys (js_set result key (js_get generated key))
          preserved (added @ [fullPathOf path key]))
        = foldl (dmpe_step ps qs) (js_set result key (js_get generated key)) keys"
      using False e g om sub dk pr rest knk set by (intro 3(1)) auto
    with False set step show ?thesis by simp
  next
    case True
    then have kp: "key \<in> fst ` set ps" using e ok by (simp add: js_in_ordinary)
    with pr have kr: "key \<in> fst ` set result" by auto
    from map_of_key [OF kp] obtain v where v: "map_of ps key = Some v" "(key, v) \<in> set ps" by blast
    from omp v(2) w(1) have ovw: "ordinaryMerge v w" by (rule ordinaryMergeProps_member)
    have gv: "js_get existing key = v" using e v(1) by (simp add: js_get_own)
    have m: "mergedAt ps qs key = spec_mergedValue v w" using v(1) w(1) by (simp add: mergedAt_def)
    have set: "\<And>x. js_set result key x = map (\<lambda>p. if fst p = key then (key, x) else p) result"
      using kr by (simp add: js_set_old)
    have step: "dmpe_step ps qs result key
        = map (\<lambda>p. if fst p = key then (key, mergedAt ps qs key) else p) result"
      using kp by (simp add: dmpe_step_def)
    have keq: "\<And>x. fst ` set (js_set result key x) = fst ` set result"
      by (simp only: set update_keys)
    have inv: "\<And>x. fst ` set ps \<subseteq> fst ` set (js_set result key x)"
      "\<And>x. \<forall>k\<in>set keys. k \<notin> fst ` set ps \<longrightarrow> k \<notin> fst ` set (js_set result key x)"
      unfolding keq by (rule pr, rule rest)
    show ?thesis
    proof (cases "isPlainObject v \<and> isPlainObject w")
      case both: True
      then obtain ps' qs' where v': "v = JObj ps'" and w': "w = JObj qs'"
        using ovw plain_ordinary by blast
      obtain x pr' ad' where d: "deepMergePreserveExisting v w (fullPathOf path key) preserved added = (x, pr', ad')"
        by (cases "deepMergePreserveExisting v w (fullPathOf path key) preserved added") auto
      have "fst (deepMergePreserveExisting (js_get existing key) (js_get generated key)
            (fullPathOf path key) preserved added) = spec_merge ps' qs'"
        using True both gv gw v' w' ovw by (intro 3(2)) simp_all
      with d gv gw have x: "x = spec_merge ps' qs'" by simp
      then have mx: "mergedAt ps qs key = JObj x" using m v' w' by (simp add: spec_merge_def)
      have "fst (dmpe_loop existing generated path keys (js_set result key (JObj x)) pr' ad')
          = foldl (dmpe_step ps qs) (js_set result key (JObj x)) keys"
        using True both gv gw d e g om sub dk inv [of "JObj x"]
        by (intro 3(3) [of x "(pr', ad')" pr' ad']) simp_all
      moreover have "dmpe_step ps qs result key = js_set result key (JObj x)"
        unfolding step set mx ..
      ultimately show ?thesis using True both gv gw d by simp
    next
      case notboth: False
      then have mv: "mergedAt ps qs key = v" using m by (simp add: spec_mergedValue_scalar)
      have "fst (dmpe_loop existing generated path keys (js_set result key (js_get existing key))
            (preserved @ [fullPathOf path key]) added)
          = foldl (dmpe_step ps qs) (js_set result key (js_get existing key)) keys"
        using True notboth gv gw e g om sub dk inv [of v]
        by (intro 3(4)) simp_all
      moreover have "dmpe_step ps qs result key = js_set result key v"
        unfolding step set mv ..
      ultimately show ?thesis using True notboth gv gw by auto
    qed
  qed
qed

lemma spec_mergedProps_fst: "map fst (spec_mergedProps ps qs) = map fst ps"
  by (induction ps) simp_all

lemma spec_merge_keys:
  "map fst (spec_merge ps qs) = map fst ps @ filter (\<lambda>k. k \<notin> set (map fst ps)) (map fst qs)"
  by (simp add: spec_merge_def spec_mergedProps_fst filter_map comp_def)

text \<open>
  Claim C10, for mappings with ordinary keys. When, at every level the merge reaches (the
  two mappings themselves and, under every key that both have with a mapping on both
  sides, the two mappings found there), no key is an array index or the name of a property
  of \<open>Object.prototype\<close> (and a mapping has each of its keys once), both tree merges
  return exactly the mapping the claim describes:
  the keys of the existing mapping first, in its order, with the merged value in place of a
  value when both sides are mappings, then the keys that only the generated mapping has,
  in its order; and the same at every nesting level. Values that the merge copies without
  entering them are not restricted.
\<close>

theorem deepMerge_key_order:
  assumes "ordinaryMerge (JObj ps) (JObj qs)"
  shows "fst (deepMergeJson (JObj ps) (JObj qs) path pr ad) = spec_merge ps qs
       \<and> fst (deepMergePreserveExisting (JObj ps) (JObj qs) path pr ad) = spec_merge ps qs
       \<and> map fst (spec_merge ps qs) = map fst ps @ filter (\<lambda>k. k \<notin> set (map fst ps)) (map fst qs)"
  using assms deepMergeJson_closed(1) [OF refl refl, of ps qs path pr ad]
    deepMergePreserveExisting_closed(1) [OF refl refl, of ps qs path pr ad]
  by (simp only: spec_merge_keys simp_thms)

text \<open>
  The theorem at \<open>{"a":1,"b":{"c":2},"n":{"1":0}}\<close> merged with
  \<open>{"b":{"d":3,"c":100},"e":5,"a":99}\<close>: the result is
  \<open>{"a":1,"b":{"c":2,"d":3},"n":{"1":0},"e":5}\<close>. The mapping under \<open>n\<close> has an array index
  as a key; only the existing side has \<open>n\<close>, so the merge copies it and never enters it.
\<close>

theorem deepMerge_key_order_witness:
  \<open>ordinaryMerge
      (JObj [(S ''a'', JNum (S ''1'')), (S ''b'', JObj [(S ''c'', JNum (S ''2''))]),
        (S ''n'', JObj [(S ''1'', JNum (S ''0''))])])
      (JObj [(S ''b'', JObj [(S ''d'', JNum (S ''3'')), (S ''c'', JNum (S ''100''))]),
        (S ''e'', JNum (S ''5'')), (S ''a'', JNum (S ''99''))])
   \<and> fst (deepMergeJson
        (JObj [(S ''a'', JNum (S ''1'')), (S ''b'', JObj [(S ''c'', JNum (S ''2''))]),
          (S ''n'', JObj [(S ''1'', JNum (S ''0''))])])
        (JObj [(S ''b'', JObj [(S ''d'', JNum (S ''3'')), (S ''c'', JNum (S ''100''))]),
          (S ''e'', JNum (S ''5'')), (S ''a'', JNum (S ''99''))]) [] [] [])
      = [(S ''a'', JNum (S ''1'')),
         (S ''b'', JObj [(S ''c'', JNum (S ''2'')), (S ''d'', JNum (S ''3''))]),
         (S ''n'', JObj [(S ''1'', JNum (S ''0''))]),
         (S ''e'', JNum (S ''5''))]
   \<and> fst (deepMergePreserveExisting
        (JObj [(S ''a'', JNum (S ''1'')), (S ''b'', JObj [(S ''c'', JNum (S ''2''))]),
          (S ''n'', JObj [(S ''1'', JNum (S ''0''))])])
        (JObj [(S ''b'', JObj [(S ''d'', JNum (S ''3'')), (S ''c'', JNum (S ''100''))]),
          (S ''e'', JNum (S ''5'')), (S ''a'', JNum (S ''99''))]) [] [] [])
      = [(S ''a'', JNum (S ''1'')),
         (S ''b'', JObj [(S ''c'', JNum (S ''2'')), (S ''d'', JNum (S ''3''))]),
         (S ''n'', JObj [(S ''1'', JNum (S ''0''))]),
         (S ''e'', JNum (S ''5''))]\<close>
  using deepMerge_key_order [of
      "[(S ''a'', JNum (S ''1'')), (S ''b'', JObj [(S ''c'', JNum (S ''2''))]),
        (S ''n'', JObj [(S ''1'', JNum (S ''0''))])]"
      "[(S ''b'', JObj [(S ''d'', JNum (S ''3'')), (S ''c'', JNum (S ''100''))]),
        (S ''e'', JNum (S ''5'')), (S ''a'', JNum (S ''99''))]" "[]" "[]" "[]"]
  by (simp add: ordinaryKeys_def ordinaryKey_def isArrayIndex_def isDigit_def Object_prototype_names_def
      spec_merge_def)

text \<open>
  Claim C10 as written, at a generated key that is an array index. The existing document is
  \<open>{"b":1}\<close> and the generated one \<open>{"1":2}\<close>. Both merges add the property \<open>1\<close> after \<open>b\<close>,
  and the object lists it first: the merged document begins with a key of the generated
  mapping, not with the key of the existing one.
\<close>

theorem deepMerge_array_index_key_counterexample:
  \<open>JSON_parse (S ''{"b":1}'') = Some (JObj [(S ''b'', JNum (S ''1''))])
   \<and> JSON_parse (S ''{"1":2}'') = Some (JObj [(S ''1'', JNum (S ''2''))])
   \<and> fst (deepMergeJson (JObj [(S ''b'', JNum (S ''1''))]) (JObj [(S ''1'', JNum (S ''2''))]) [] [] [])
      = [(S ''1'', JNum (S ''2'')), (S ''b'', JNum (S ''1''))]
   \<and> fst (deepMergePreserveExisting (JObj [(S ''b'', JNum (S ''1''))]) (JObj [(S ''1'', JNum (S ''2''))]) [] [] [])
      = [(S ''1'', JNum (S ''2'')), (S ''b'', JNum (S ''1''))]
   \<and> mergeJson JSON_stringify (S ''{"b":1}'') (S ''{"1":2}'') =
       \<lparr>content = S ''{\<newline>  "1": 2,\<newline>  "b": 1\<newline>}\<newline>'', preserved = [S ''b''], added = [S ''1'']\<rparr>\<close>
  by (simp add: js_eval deepMergeJson.simps deepMergePreserveExisting.simps)

end
